theory Spec2Isabelle
  imports Main "HOL-Library.Sublist" "HOL-Library.AList"
begin

section \<open>modelx spaces: a shallow embedding of \<^verbatim>\<open>modelx/core/space.py\<close>\<close>

text \<open>
  Objects of the Python program are addressed by identity. A space (\<^verbatim>\<open>SpaceImpl\<close>) or a
  model is a natural number \<open>sid\<close>, a cells object a natural number \<open>cid\<close>, a formula object a
  natural number \<open>fid\<close>; equality of these numbers is Python's \<^verbatim>\<open>is\<close> (and the default
  \<^verbatim>\<open>==\<close> of objects that define no \<^verbatim>\<open>__eq__\<close>).
  Every \<^verbatim>\<open>raise\<close> of the source is a value of \<open>error\<close>.
\<close>

type_synonym sid = nat
type_synonym cid = nat
type_synonym fid = nat

datatype error =
    TypeError string
  | ValueError string
  | AttributeError string
  | RuntimeError string
  | NotImplementedError
  | RecursionError
  | FormulaError string

subsection \<open>\<^verbatim>\<open>SpaceImpl._update_mro\<close>: the C3 merge\<close>

text \<open>
  The \<^verbatim>\<open>for seq in non_empty\<close> loop that looks for a merge candidate: the head of the first
  sequence whose head is in the tail of no sequence of \<^verbatim>\<open>non_empty\<close>. A rejected candidate is
  reset to \<^verbatim>\<open>None\<close>, so the loop ends with \<^verbatim>\<open>None\<close> when every head is rejected.
  (\<^verbatim>\<open>non_empty\<close> holds no empty sequence; the second equation is never reached from the loop.)
\<close>

fun find_candidate :: "sid list list \<Rightarrow> sid list list \<Rightarrow> sid option" where
  "find_candidate non_empty [] = None"
| "find_candidate non_empty ([] # rest) = find_candidate non_empty rest"
| "find_candidate non_empty ((candidate # tl_seq) # rest) =
     (if list_ex (\<lambda>s. candidate \<in> set (tl s)) non_empty
      then find_candidate non_empty rest
      else Some candidate)"

text \<open>
  \<^verbatim>\<open>if seq[0] == candidate: del seq[0]\<close>, for one sequence. The deletion is in place: the
  sequence objects of \<^verbatim>\<open>seqs\<close> are the ones that shrink.
\<close>

fun remove_head :: "sid \<Rightarrow> sid list \<Rightarrow> sid list" where
  "remove_head candidate [] = []"
| "remove_head candidate (x # xs) = (if x = candidate then xs else x # xs)"

text \<open>
  The \<^verbatim>\<open>while True\<close> loop. It returns the merged order \<^verbatim>\<open>res\<close> together with the
  sequences as the loop leaves them, or the \<^verbatim>\<open>TypeError\<close> of the source.
\<close>

definition inconsistent_hierarchy :: error where
  "inconsistent_hierarchy = TypeError ''inconsistent hierarchy, no C3 MRO is possible''"

function c3_loop :: "sid list list \<Rightarrow> sid list \<Rightarrow> error + (sid list \<times> sid list list)" where
  "c3_loop seqs res =
     (let non_empty = filter (\<lambda>s. s \<noteq> []) seqs in
      if non_empty = [] then Inr (res, seqs)
      else (case find_candidate non_empty non_empty of
              None \<Rightarrow> Inl inconsistent_hierarchy
            | Some candidate \<Rightarrow> c3_loop (map (remove_head candidate) seqs) (res @ [candidate])))"
  by pat_completeness auto

lemma find_candidate_head:
  "find_candidate ne xs = Some c \<Longrightarrow> \<exists>t. (c # t) \<in> set xs"
  by (induction ne xs rule: find_candidate.induct) (auto split: if_splits)

lemma remove_head_length: "length (remove_head c s) \<le> length s"
  by (cases s) auto

lemma sum_list_remove_head_le:
  "sum_list (map length (map (remove_head c) seqs)) \<le> sum_list (map length seqs)"
  by (induction seqs) (auto simp: remove_head_length add_le_mono)

lemma sum_list_remove_head_less:
  "(c # t) \<in> set seqs \<Longrightarrow>
   sum_list (map length (map (remove_head c) seqs)) < sum_list (map length seqs)"
proof (induction seqs)
  case Nil
  then show ?case by simp
next
  case (Cons s seqs)
  show ?case
  proof (cases "s = c # t")
    case True
    have "sum_list (map length (map (remove_head c) seqs)) \<le> sum_list (map length seqs)"
      by (rule sum_list_remove_head_le)
    with True show ?thesis by simp
  next
    case False
    with Cons.prems have "(c # t) \<in> set seqs" by simp
    from Cons.IH [OF this] remove_head_length [of c s] show ?thesis by simp
  qed
qed

termination c3_loop
proof (relation "measure (\<lambda>(seqs, res). sum_list (map length seqs))", goal_cases)
  case 1
  show ?case by simp
next
  case (2 seqs res non_empty candidate)
  from 2(3) obtain t where "(candidate # t) \<in> set non_empty"
    using find_candidate_head by blast
  with 2(1) have "(candidate # t) \<in> set seqs" by simp
  from sum_list_remove_head_less [OF this] show ?case by simp
qed

declare c3_loop.simps [simp del]

text \<open>
  \<^verbatim>\<open>_update_mro\<close> for a space \<open>self\<close> whose direct bases are \<open>direct_bases\<close>, where \<open>mro_of b\<close> is
  \<^verbatim>\<open>b.mro\<close>. The sequences merged are a copy of the MRO of each direct base and, last, the
  list \<^verbatim>\<open>self.direct_bases\<close> itself (not a copy). The result is the new \<^verbatim>\<open>self.mro\<close> and the
  content of \<^verbatim>\<open>self.direct_bases\<close> when the method returns.
\<close>

definition update_mro :: "(sid \<Rightarrow> sid list) \<Rightarrow> sid \<Rightarrow> sid list \<Rightarrow> error + (sid list \<times> sid list)" where
  "update_mro mro_of self direct_bases =
     (case c3_loop (map mro_of direct_bases @ [direct_bases]) [] of
        Inl e \<Rightarrow> Inl e
      | Inr (res, seqs) \<Rightarrow> Inr (self # res, last seqs))"

text \<open>
  A hierarchy of spaces as successive constructions leave it: every space is entered with the
  direct bases it was declared with and the linearization \<^verbatim>\<open>_update_mro\<close> computed from the
  linearizations of those bases, which were constructed before it.
\<close>

definition mro_in :: "(sid \<rightharpoonup> sid list \<times> sid list) \<Rightarrow> sid \<Rightarrow> sid list" where
  "mro_in h b = (case h b of None \<Rightarrow> [] | Some (bs, l) \<Rightarrow> l)"

definition bases_in :: "(sid \<rightharpoonup> sid list \<times> sid list) \<Rightarrow> sid \<Rightarrow> sid list" where
  "bases_in h b = (case h b of None \<Rightarrow> [] | Some (bs, l) \<Rightarrow> bs)"

inductive hierarchy :: "(sid \<rightharpoonup> sid list \<times> sid list) \<Rightarrow> bool" where
  hierarchy_empty: "hierarchy Map.empty"
| hierarchy_new:
    "hierarchy h \<Longrightarrow> h s = None \<Longrightarrow> list_all (\<lambda>b. h b \<noteq> None) bs \<Longrightarrow>
     update_mro (mro_in h) s bs = Inr (l, bs') \<Longrightarrow>
     hierarchy (h(s \<mapsto> (bs, l)))"

text \<open>\<open>y\<close> is a direct base of \<open>x\<close>; its transitive closure gives the transitive bases.\<close>

definition direct_base :: "(sid \<rightharpoonup> sid list \<times> sid list) \<Rightarrow> (sid \<times> sid) set" where
  "direct_base h = {(x, y). y \<in> set (bases_in h x)}"

text \<open>\<open>x\<close> occurs in \<open>l\<close> and \<open>y\<close> occurs after the first \<open>x\<close>.\<close>

definition precedes :: "sid list \<Rightarrow> sid \<Rightarrow> sid \<Rightarrow> bool" where
  "precedes l x y = (y \<in> set (tl (dropWhile (\<lambda>z. z \<noteq> x) l)))"

text \<open>
  What \<^verbatim>\<open>_update_mro\<close> establishes for every space of a hierarchy; the invariant of the proof below.
\<close>

definition linearized :: "(sid \<rightharpoonup> sid list \<times> sid list) \<Rightarrow> bool" where
  "linearized h = (\<forall>s bs l. h s = Some (bs, l) \<longrightarrow>
     (\<exists>res. l = s # res \<and> distinct l \<and> subseq bs res \<and>
        (\<forall>b\<in>set bs. subseq (mro_in h b) res)) \<and>
     (\<forall>x\<in>set l. h x \<noteq> None \<and> subseq (mro_in h x) l))"

text \<open>
  A diamond: \<open>0\<close> has no base, \<open>1\<close> and \<open>2\<close> have the base \<open>0\<close>, and \<open>3\<close> is constructed over \<open>[1, 2]\<close>.
\<close>

definition diamond_o :: "sid \<rightharpoonup> sid list \<times> sid list" where "diamond_o = Map.empty(0 \<mapsto> ([], [0]))"
definition diamond_a :: "sid \<rightharpoonup> sid list \<times> sid list" where "diamond_a = diamond_o(1 \<mapsto> ([0], [1, 0]))"
definition diamond_b :: "sid \<rightharpoonup> sid list \<times> sid list" where "diamond_b = diamond_a(2 \<mapsto> ([0], [2, 0]))"

subsection \<open>Values, cells, containers and the state\<close>

text \<open>
  Python values that are bound to names or passed as arguments. \<open>VSpace\<close> and \<open>VCells\<close> are
  references to objects; \<open>VBuiltin\<close> stands for an object of the interpreter
  (\<^verbatim>\<open>__builtins__\<close>, a bound method).
\<close>

datatype pyval = VNone | VInt int | VStr string | VSpace sid | VCells cid | VBuiltin string

text \<open>
  A dictionary is an association list with distinct keys, in insertion order:
  \<^verbatim>\<open>d[k] = v\<close> is \<open>AList.update k v d\<close> (in place when the key is there, at the end otherwise),
  \<^verbatim>\<open>del d[k]\<close> is \<open>AList.delete k d\<close>, \<^verbatim>\<open>k in d\<close> is \<open>k \<in> set (keys d)\<close> and \<^verbatim>\<open>d[k]\<close> is \<open>map_of d k\<close>.
\<close>

type_synonym ('k, 'v) dict = "('k \<times> 'v) list"

definition keys :: "('k, 'v) dict \<Rightarrow> 'k list" where
  "keys d = map fst d"

text \<open>\<^verbatim>\<open>d.update(other)\<close>: the items of \<open>other\<close> are assigned in their order.\<close>

definition dict_update :: "('k, 'v) dict \<Rightarrow> ('k, 'v) dict \<Rightarrow> ('k, 'v) dict" where
  "dict_update d other = foldl (\<lambda>acc (k, v). AList.update k v acc) d other"

text \<open>
  A formula object: its identity and the parameter names of its signature.
\<close>

record formula =
  f_id :: fid
  f_params :: "string list"

text \<open>
  Modelled from the spec: \<^verbatim>\<open>CellsImpl\<close> (\<^verbatim>\<open>modelx/core/cells.py\<close>) is not among the sources.
  A cells object has a name, an owning space, a formula and a result store from argument
  tuples to values; \<^verbatim>\<open>space\<close> and \<^verbatim>\<open>parent\<close> are set to the space it is created in.
\<close>

record cells_impl =
  cells_space :: sid
  cells_parent :: "sid option"
  cells_name :: string
  cells_formula :: formula
  cells_data :: "(pyval list, pyval) dict"

text \<open>
  The lazily evaluated mappings of a space, as \<^verbatim>\<open>_init_members\<close> creates them.
\<close>

datatype member =
    SelfCells | SelfSpaces | SelfRefs | DynamicSpaces | Arguments | SelfMembers
  | BaseCells | BaseSpaces | BaseRefs
  | DerivedCells | DerivedSpaces | DerivedRefs
  | Cells | StaticSpaces | Spaces | Refs | NamespaceImpl | Namespace

type_synonym lazy = "sid \<times> member"

text \<open>
  A \<^verbatim>\<open>SpaceContainerImpl\<close>: a model (\<open>is_space = False\<close>) or a \<^verbatim>\<open>SpaceImpl\<close>. The fields are the
  attributes of the source. Of a model only the attributes of \<^verbatim>\<open>SpaceContainerImpl\<close> are
  used; its \<^verbatim>\<open>_spaces\<close> is the plain dictionary \<open>spaces_dict\<close>. Of a space, \<open>static_spaces\<close> and
  \<open>refs\<close> are the chained mappings \<^verbatim>\<open>_static_spaces\<close> and \<^verbatim>\<open>_refs\<close>, which the source assigns
  into; they are kept as mappings of their own.
\<close>

record container =
  is_space :: bool
  name :: string
  parent :: sid
  paramfunc :: "formula option"
  param_spaces :: "(pyval list, sid) dict"
  spacenamer :: nat
  cellsnamer :: nat
  spaces_dict :: "(string, sid) dict"
  arguments :: "(string, pyval) dict"
  direct_bases :: "sid list"
  mro :: "sid list"
  self_cells :: "(string, cid) dict"
  self_spaces :: "(string, sid) dict"
  self_refs :: "(string, pyval) dict"
  dynamic_spaces :: "(string, sid) dict"
  derived_cells :: "(string, cid) dict"
  derived_spaces :: "(string, sid) dict"
  derived_refs :: "(string, pyval) dict"
  global_refs :: "(string, pyval) dict"
  static_spaces :: "(string, sid) dict"
  refs :: "(string, pyval) dict"

text \<open>
  The state of the program: the heap of containers and of cells objects with the next free
  identity of each, \<^verbatim>\<open>system.self\<close>, and for every lazily evaluated mapping its update flag and
  its observers.
\<close>

record state =
  containers :: "sid \<Rightarrow> container"
  next_sid :: sid
  cells_heap :: "cid \<Rightarrow> cells_impl"
  next_cid :: cid
  system_self :: "sid option"
  needs_update :: "lazy \<Rightarrow> bool"
  observers :: "lazy \<Rightarrow> lazy list"

definition set_container :: "sid \<Rightarrow> container \<Rightarrow> state \<Rightarrow> state" where
  "set_container s c st = st\<lparr>containers := (containers st)(s := c)\<rparr>"

subsection \<open>\<^verbatim>\<open>BaseMembers._update_data\<close> and \<^verbatim>\<open>DerivedMembers._update_data_cells\<close>\<close>

text \<open>
  \<^verbatim>\<open>BaseMembers._update_data\<close>: the walk over \<^verbatim>\<open>zip(bases, bases[1:])\<close> for
  \<^verbatim>\<open>bases = list(reversed(self.space.mro))\<close>. \<open>self_of b\<close> is the mapping \<^verbatim>\<open>base.self_<member>\<close> and
  \<open>members_of b\<close> the keys of \<^verbatim>\<open>base.self_members\<close>. After the own members of \<open>base\<close> are folded
  in, every name that \<open>base_next\<close> has among its own members is deleted.
\<close>

fun base_members_loop ::
  "(sid \<Rightarrow> (string, 'a) dict) \<Rightarrow> (sid \<Rightarrow> string list) \<Rightarrow> (string, 'a) dict \<Rightarrow> sid list \<Rightarrow> (string, 'a) dict"
where
  "base_members_loop self_of members_of data (base # base_next # rest) =
     base_members_loop self_of members_of
       (filter (\<lambda>(n, v). n \<notin> set (members_of base_next)) (dict_update data (self_of base)))
       (base_next # rest)"
| "base_members_loop self_of members_of data [base] = data"
| "base_members_loop self_of members_of data [] = data"

definition base_members_update ::
  "(sid \<Rightarrow> (string, 'a) dict) \<Rightarrow> (sid \<Rightarrow> string list) \<Rightarrow> sid list \<Rightarrow> (string, 'a) dict" where
  "base_members_update self_of members_of mro_list =
     base_members_loop self_of members_of [] (rev mro_list)"

text \<open>
  The keys of \<^verbatim>\<open>self_members\<close>, the chain of \<^verbatim>\<open>_self_cells\<close>, \<^verbatim>\<open>_self_spaces\<close>, \<^verbatim>\<open>_self_refs\<close> and
  \<^verbatim>\<open>_dynamic_spaces\<close>.
\<close>

definition self_members_keys :: "container \<Rightarrow> string list" where
  "self_members_keys c =
     keys (self_cells c) @ keys (self_spaces c) @ keys (self_refs c) @ keys (dynamic_spaces c)"

definition base_cells :: "state \<Rightarrow> sid \<Rightarrow> (string, cid) dict" where
  "base_cells st s =
     base_members_update (\<lambda>b. self_cells (containers st b))
       (\<lambda>b. self_members_keys (containers st b)) (mro (containers st s))"

text \<open>
  Modelled from the spec: the constructor \<^verbatim>\<open>CellsImpl(space=..., name=..., func=...)\<close> is not
  among the sources. It creates a cells object bound to \<open>space\<close> with the given name and
  formula and an empty result store. The formula object passed is the one the new cells holds
  (the test \<^verbatim>\<open>self.data[key].formula is base_cell.formula\<close> of the source compares identities).
\<close>

definition CellsImpl :: "sid \<Rightarrow> string \<Rightarrow> formula \<Rightarrow> state \<Rightarrow> cid \<times> state" where
  "CellsImpl space nm func st =
     (next_cid st,
      st\<lparr>cells_heap := (cells_heap st)(next_cid st :=
            \<lparr>cells_space = space, cells_parent = Some space, cells_name = nm,
             cells_formula = func, cells_data = []\<rparr>),
         next_cid := Suc (next_cid st)\<rparr>)"

text \<open>
  The loop \<^verbatim>\<open>for key, base_cell in self.base_members.items()\<close> of \<^verbatim>\<open>_update_data_cells\<close>, on the
  mapping \<open>data\<close> of derived cells. Where the derived cell of \<open>key\<close> has the formula of the base
  cell, the source executes \<^verbatim>\<open>return\<close>: the loop ends there, with the items not yet visited
  left as they are.
\<close>

fun update_data_cells_loop ::
  "sid \<Rightarrow> (string, cid) dict \<Rightarrow> (string, cid) dict \<Rightarrow> state \<Rightarrow> (string, cid) dict \<times> state"
where
  "update_data_cells_loop space [] data st = (data, st)"
| "update_data_cells_loop space ((key, base_cell) # rest) data st =
     (if key \<in> set (keys data) \<and>
         f_id (cells_formula (cells_heap st (the (map_of data key)))) =
         f_id (cells_formula (cells_heap st base_cell))
      then (data, st)
      else
        (let data1 = (if key \<in> set (keys data) then AList.delete key data else data);
             (cell, st1) = CellsImpl space (cells_name (cells_heap st base_cell))
                             (cells_formula (cells_heap st base_cell)) st
         in update_data_cells_loop space rest (AList.update key cell data1) st1))"

text \<open>
  \<^verbatim>\<open>_update_data_cells\<close> for the derived cells of the space \<open>s\<close>: first the derived cells whose
  name is not a key of the base members are deleted, then the loop runs.
\<close>

definition update_data_cells :: "sid \<Rightarrow> state \<Rightarrow> state" where
  "update_data_cells s st =
     (let base_members = base_cells st s;
          data0 = filter (\<lambda>(k, v). k \<in> set (keys base_members)) (derived_cells (containers st s));
          (data1, st1) = update_data_cells_loop s base_members data0 st
      in set_container s ((containers st1 s)\<lparr>derived_cells := data1\<rparr>) st1)"

subsection \<open>\<^verbatim>\<open>SpaceImpl.revert_derived\<close>\<close>

text \<open>The body is \<^verbatim>\<open>raise NotImplementedError\<close>.\<close>

definition revert_derived :: "sid \<Rightarrow> string \<Rightarrow> state \<Rightarrow> (error + unit) \<times> state" where
  "revert_derived s nm st = (Inl NotImplementedError, st)"

subsection \<open>The parts of modelx that the sources do not hold\<close>

text \<open>
  Modelled from the spec: \<^verbatim>\<open>LazyEvalChainMap\<close> (\<^verbatim>\<open>modelx/core/base.py\<close>) is not among the sources.
  The spec's layered view merges its source mappings in order, so that later sources override
  earlier ones on a name collision.
\<close>

definition chain_map :: "('k, 'v) dict list \<Rightarrow> ('k, 'v) dict" where
  "chain_map maps = foldl dict_update [] maps"

text \<open>
  Modelled from the spec: \<^verbatim>\<open>append_observer\<close> (\<^verbatim>\<open>modelx/core/base.py\<close>) registers \<open>observer\<close> as a
  dependent of the lazily evaluated mapping \<open>source\<close>.
\<close>

definition append_observer :: "lazy \<Rightarrow> lazy \<Rightarrow> state \<Rightarrow> state" where
  "append_observer source observer st =
     st\<lparr>observers := (observers st)(source := observers st source @ [observer])\<rparr>"

text \<open>
  What a parameter function returns: \<^verbatim>\<open>None\<close>, or a mapping of keyword arguments for
  \<^verbatim>\<open>new_space\<close>. The keys \<^verbatim>\<open>name\<close>, \<^verbatim>\<open>bases\<close> and \<^verbatim>\<open>paramfunc\<close> are those \<^verbatim>\<open>new_space\<close> accepts (an absent
  key and the value \<^verbatim>\<open>None\<close> are the same to it); \<open>sa_other\<close> lists any other key of the mapping.
  The argument \<^verbatim>\<open>bases\<close> is \<^verbatim>\<open>None\<close>, one object, a sequence of objects, or something else.
\<close>

datatype bases_arg = BasesNone | BasesOne sid | BasesSeq "sid list" | BasesOther

record space_args =
  sa_name :: "string option"
  sa_bases :: bases_arg
  sa_paramfunc :: "formula option"
  sa_other :: "string list"

text \<open>
  The code that the sources call and do not hold is a parameter of the model:
  \<^item> \<open>is_valid_name\<close> is \<^verbatim>\<open>modelx.core.util.is_valid_name\<close>;
  \<^item> \<open>get_next\<close> is \<^verbatim>\<open>AutoNamer.get_next\<close>, from the state of the namer and the existing names to
    the new name and the next state of the namer;
  \<^item> \<open>bind_args\<close> is the constructor of \<^verbatim>\<open>ObjectArgs\<close>, which binds the call's \<^verbatim>\<open>args\<close> and
    \<^verbatim>\<open>kwargs\<close> to the signature of the parameter function and gives \<^verbatim>\<open>argvalues\<close> and
    \<^verbatim>\<open>arguments\<close>, or raises;
  \<^item> \<open>call_formula\<close> is the call \<^verbatim>\<open>altfunc(**self.arguments)\<close> of the user's parameter function
    in the namespace of the space: it may raise, and it may change the state (a formula can
    call back into modelx);
  \<^item> \<open>recursion_limit\<close> is the recursion limit of the interpreter, which bounds the depth to
    which invalidation is propagated from observer to observer;
  \<^item> \<open>init_derived\<close> is the first computation of the derived members of a space that has
    bases, which \<^verbatim>\<open>_init_members\<close> starts through the constructors of \<^verbatim>\<open>DerivedMembers\<close> and
    \<^verbatim>\<open>BaseMembers\<close> and which runs through \<^verbatim>\<open>LazyEvalDict\<close>.
\<close>

record env =
  is_valid_name :: "string \<Rightarrow> bool"
  get_next :: "nat \<Rightarrow> string list \<Rightarrow> string \<times> nat"
  bind_args :: "formula option \<Rightarrow> pyval list \<Rightarrow> (string, pyval) dict \<Rightarrow>
                error + (pyval list \<times> (string, pyval) dict)"
  call_formula :: "formula \<Rightarrow> (string, pyval) dict \<Rightarrow> (string, pyval) dict \<Rightarrow> state \<Rightarrow>
                   (error + space_args option) \<times> state"
  init_derived :: "sid \<Rightarrow> state \<Rightarrow> (error + unit) \<times> state"
  recursion_limit :: nat

subsection \<open>The views of a container\<close>

text \<open>
  \<^verbatim>\<open>cells\<close> is the chain of \<^verbatim>\<open>_self_cells\<close> and \<^verbatim>\<open>_derived_cells\<close>. \<^verbatim>\<open>spaces\<close> is, for a space, the chain
  of \<^verbatim>\<open>_static_spaces\<close> and \<^verbatim>\<open>_dynamic_spaces\<close>, and for a model the dictionary \<^verbatim>\<open>_spaces\<close>.
  \<^verbatim>\<open>namespace\<close> is \<^verbatim>\<open>NameSpaceDict._update_data\<close>: the cells, then the spaces, then the refs.
\<close>

definition cells :: "container \<Rightarrow> (string, cid) dict" where
  "cells c = chain_map [self_cells c, derived_cells c]"

definition spaces :: "container \<Rightarrow> (string, sid) dict" where
  "spaces c = (if is_space c then chain_map [static_spaces c, dynamic_spaces c] else spaces_dict c)"

definition namespace :: "container \<Rightarrow> (string, pyval) dict" where
  "namespace c =
     dict_update (dict_update (dict_update [] (map (\<lambda>(k, v). (k, VCells v)) (cells c)))
       (map (\<lambda>(k, v). (k, VSpace v)) (spaces c))) (refs c)"

definition has_space :: "container \<Rightarrow> string \<Rightarrow> bool" where
  "has_space c nm = (nm \<in> set (keys (spaces c)))"

subsection \<open>\<^verbatim>\<open>SpaceImpl.__init__\<close> and \<^verbatim>\<open>SpaceContainerImpl.new_space\<close>\<close>

text \<open>The direct bases from the argument \<^verbatim>\<open>bases\<close>, or the \<^verbatim>\<open>TypeError\<close> of the source.\<close>

definition bases_must_be_spaces :: error where
  "bases_must_be_spaces = TypeError ''bases must be space(s).''"

definition direct_bases_of :: "state \<Rightarrow> bases_arg \<Rightarrow> error + sid list" where
  "direct_bases_of st bases =
     (case bases of
        BasesNone \<Rightarrow> Inr []
      | BasesOne b \<Rightarrow> if is_space (containers st b) then Inr [b] else Inl bases_must_be_spaces
      | BasesSeq bs \<Rightarrow>
          if list_all (\<lambda>b. is_space (containers st b)) bs then Inr bs else Inl bases_must_be_spaces
      | BasesOther \<Rightarrow> Inl bases_must_be_spaces)"

definition name_already_assigned :: error where
  "name_already_assigned = ValueError ''Name already assigned.''"

definition invalid_name :: "string \<Rightarrow> error" where
  "invalid_name nm = ValueError (''Invalid name '' @ [CHR 0x27] @ nm @ [CHR 0x27] @ ''.'')"

text \<open>
  The observers that \<^verbatim>\<open>_init_members\<close> registers for the space \<open>s\<close>: each chained mapping
  observes its source mappings, \<^verbatim>\<open>BaseMembers\<close> observes \<^verbatim>\<open>_self_members\<close> of every base of
  \<^verbatim>\<open>mro[1:]\<close> and is observed by its \<^verbatim>\<open>DerivedMembers\<close>, the three derived mappings observe
  \<^verbatim>\<open>_self_members\<close>, and \<^verbatim>\<open>_namespace\<close> observes \<^verbatim>\<open>_namespace_impl\<close>. The pairs are (source, observer).
\<close>

definition init_observers :: "sid \<Rightarrow> sid list \<Rightarrow> (lazy \<times> lazy) list" where
  "init_observers s bases =
     [((s, SelfCells), (s, SelfMembers)), ((s, SelfSpaces), (s, SelfMembers)),
      ((s, SelfRefs), (s, SelfMembers)), ((s, DynamicSpaces), (s, SelfMembers)),
      ((s, BaseCells), (s, DerivedCells))] @
     map (\<lambda>b. ((b, SelfMembers), (s, BaseCells))) bases @
     [((s, SelfCells), (s, Cells)), ((s, DerivedCells), (s, Cells)),
      ((s, BaseSpaces), (s, DerivedSpaces))] @
     map (\<lambda>b. ((b, SelfMembers), (s, BaseSpaces))) bases @
     [((s, SelfSpaces), (s, StaticSpaces)), ((s, DerivedSpaces), (s, StaticSpaces)),
      ((s, StaticSpaces), (s, Spaces)), ((s, DynamicSpaces), (s, Spaces)),
      ((s, BaseRefs), (s, DerivedRefs))] @
     map (\<lambda>b. ((b, SelfMembers), (s, BaseRefs))) bases @
     [((s, Arguments), (s, Refs)), ((s, SelfRefs), (s, Refs)), ((s, DerivedRefs), (s, Refs)),
      ((s, SelfMembers), (s, DerivedCells)), ((s, SelfMembers), (s, DerivedSpaces)),
      ((s, SelfMembers), (s, DerivedRefs)),
      ((s, Cells), (s, NamespaceImpl)), ((s, Spaces), (s, NamespaceImpl)),
      ((s, Refs), (s, NamespaceImpl)), ((s, NamespaceImpl), (s, Namespace))]"

text \<open>
  \<^verbatim>\<open>_init_members\<close> for the space \<open>s\<close>, whose container already holds the attributes set before
  the call. The own members start empty. A space without bases (\<^verbatim>\<open>mro == [self]\<close>) has no base
  members, so its derived members are empty; for a space with bases they are left to
  \<open>init_derived\<close>. The chained mappings \<^verbatim>\<open>_static_spaces\<close> and \<^verbatim>\<open>_refs\<close> start as the merge of their
  sources.
\<close>

definition init_members :: "env \<Rightarrow> sid \<Rightarrow> state \<Rightarrow> (error + unit) \<times> state" where
  "init_members e s st =
     (let c = containers st s;
          c1 = c\<lparr>self_cells := [], self_spaces := [], dynamic_spaces := [], self_refs := [],
                 derived_cells := [], derived_spaces := [], derived_refs := [],
                 global_refs := [(''__builtins__'', VBuiltin ''__builtins__''),
                                 (''get_self'', VBuiltin ''get_self'')]\<rparr>;
          st1 = foldl (\<lambda>acc (source, observer). append_observer source observer acc)
                  (set_container s c1 st) (init_observers s (tl (mro c)));
          (r, st2) = (if tl (mro c) = [] then (Inr (), st1) else init_derived e s st1)
      in case r of
           Inl err \<Rightarrow> (Inl err, st2)
         | Inr u \<Rightarrow>
             (let c2 = containers st2 s;
                  c3 = c2\<lparr>static_spaces := chain_map [self_spaces c2, derived_spaces c2],
                          refs := chain_map [global_refs c2, arguments c2, self_refs c2,
                                             derived_refs c2]\<rparr>
              in (Inr (), set_container s c3 st2)))"

text \<open>
  The registration at the end of \<^verbatim>\<open>__init__\<close>: in \<^verbatim>\<open>_dynamic_spaces\<close> or \<^verbatim>\<open>_static_spaces\<close> of a
  parent that is a space, in \<^verbatim>\<open>spaces\<close> of a parent that is a model. \<^verbatim>\<open>is_dynamic()\<close> is
  \<^verbatim>\<open>bool(self._arguments)\<close>.
\<close>

definition register_space :: "sid \<Rightarrow> sid \<Rightarrow> state \<Rightarrow> state" where
  "register_space p s st =
     (let pc = containers st p; c = containers st s
      in if is_space pc then
           (if arguments c \<noteq> []
            then set_container p (pc\<lparr>dynamic_spaces := AList.update (name c) s (dynamic_spaces pc)\<rparr>) st
            else set_container p (pc\<lparr>static_spaces := AList.update (name c) s (static_spaces pc)\<rparr>) st)
         else set_container p (pc\<lparr>spaces_dict := AList.update (name c) s (spaces_dict pc)\<rparr>) st)"

text \<open>
  \<^verbatim>\<open>SpaceImpl(parent, name, bases, paramfunc, arguments)\<close>, which is all \<^verbatim>\<open>new_space\<close> does. The
  new object takes the identity \<open>next_sid\<close>. It is entered in the heap once \<^verbatim>\<open>_update_mro\<close> has
  returned: until then \<^verbatim>\<open>__init__\<close> has changed nothing but the namer of the parent, and an
  exception leaves an object nothing refers to.
\<close>

definition new_space ::
  "env \<Rightarrow> sid \<Rightarrow> string option \<Rightarrow> bases_arg \<Rightarrow> formula option \<Rightarrow> (string, pyval) dict option \<Rightarrow>
   state \<Rightarrow> (error + sid) \<times> state"
where
  "new_space e p name_arg bases pf args st =
     (let pc = containers st p;
          (nm, st1) =
            (case name_arg of
               None \<Rightarrow>
                 (let (n, k) = get_next e (spacenamer pc) (keys (spaces pc))
                  in (n, set_container p (pc\<lparr>spacenamer := k\<rparr>) st))
             | Some n \<Rightarrow> (n, st))
      in if has_space (containers st1 p) nm then (Inl name_already_assigned, st1)
         else if \<not> is_valid_name e nm then (Inl (invalid_name nm), st1)
         else
           (case direct_bases_of st1 bases of
              Inl err \<Rightarrow> (Inl err, st1)
            | Inr db \<Rightarrow>
                (let s = next_sid st1
                 in case update_mro (\<lambda>b. mro (containers st1 b)) s db of
                      Inl err \<Rightarrow> (Inl err, st1)
                    | Inr (mro_list, db1) \<Rightarrow>
                        (let c = \<lparr>is_space = True, name = nm, parent = p, paramfunc = pf,
                                  param_spaces = [], spacenamer = 0, cellsnamer = 0,
                                  spaces_dict = [],
                                  arguments = (case args of None \<Rightarrow> [] | Some a \<Rightarrow> a),
                                  direct_bases = db1, mro = mro_list,
                                  self_cells = [], self_spaces = [], self_refs = [],
                                  dynamic_spaces = [], derived_cells = [], derived_spaces = [],
                                  derived_refs = [], global_refs = [], static_spaces = [],
                                  refs = []\<rparr>;
                             st2 = (set_container s c st1)\<lparr>next_sid := Suc s\<rparr>;
                             (r, st3) = init_members e s st2
                         in case r of
                              Inl err \<Rightarrow> (Inl err, st3)
                            | Inr u \<Rightarrow> (Inr s, register_space p s st3)))))"

text \<open>
  The name \<^verbatim>\<open>__init__\<close> works with (the one given, or the one the namer of the parent supplies), and
  the state once the name is settled: asking the namer for a name advances it.
\<close>

definition requested_name :: "env \<Rightarrow> container \<Rightarrow> string option \<Rightarrow> string" where
  "requested_name e pc name_arg =
     (case name_arg of
        None \<Rightarrow> fst (get_next e (spacenamer pc) (keys (spaces pc)))
      | Some n \<Rightarrow> n)"

definition namer_advanced :: "env \<Rightarrow> sid \<Rightarrow> string option \<Rightarrow> state \<Rightarrow> state" where
  "namer_advanced e p name_arg st =
     (case name_arg of
        None \<Rightarrow>
          set_container p ((containers st p)
            \<lparr>spacenamer := snd (get_next e (spacenamer (containers st p)) (keys (spaces (containers st p))))\<rparr>) st
      | Some n \<Rightarrow> st)"

subsection \<open>\<^verbatim>\<open>SpaceArgs.eval_formula\<close> and \<^verbatim>\<open>SpaceContainerImpl.get_space\<close>\<close>

text \<open>
  \<^verbatim>\<open>eval_formula\<close> reads \<^verbatim>\<open>self.space.paramfunc.func\<close>, which raises \<^verbatim>\<open>AttributeError\<close> when the space
  has no parameter function, and calls the function with the arguments in the namespace of
  the space.
\<close>

definition no_paramfunc :: error where
  "no_paramfunc = AttributeError ''NoneType object has no attribute func''"

definition eval_formula ::
  "env \<Rightarrow> sid \<Rightarrow> (string, pyval) dict \<Rightarrow> state \<Rightarrow> (error + space_args option) \<times> state" where
  "eval_formula e s args st =
     (case paramfunc (containers st s) of
        None \<Rightarrow> (Inl no_paramfunc, st)
      | Some f \<Rightarrow> call_formula e f (namespace (containers st s)) args st)"

definition unexpected_keyword :: error where
  "unexpected_keyword = TypeError ''new_space() got an unexpected keyword argument''"

text \<open>
  The end of \<^verbatim>\<open>get_space\<close>, after the formula has returned \<open>res\<close>: \<^verbatim>\<open>None\<close> stands for no keyword
  argument, \<^verbatim>\<open>arguments\<close> is added, \<^verbatim>\<open>new_space(**space_args)\<close> creates the space, and the space is
  stored in \<^verbatim>\<open>param_spaces\<close> under \<^verbatim>\<open>ptr.argvalues\<close>.
\<close>

definition no_space_args :: space_args where
  "no_space_args = \<lparr>sa_name = None, sa_bases = BasesNone, sa_paramfunc = None, sa_other = []\<rparr>"

definition new_param_space ::
  "env \<Rightarrow> sid \<Rightarrow> pyval list \<Rightarrow> (string, pyval) dict \<Rightarrow> space_args option \<Rightarrow> state \<Rightarrow>
   (error + sid) \<times> state" where
  "new_param_space e s argvalues arguments_of_ptr res st =
     (let sa = (case res of None \<Rightarrow> no_space_args | Some m \<Rightarrow> m)
      in if sa_other sa \<noteq> [] then (Inl unexpected_keyword, st)
         else
           (case new_space e s (sa_name sa) (sa_bases sa) (sa_paramfunc sa)
                   (Some arguments_of_ptr) st of
              (Inl err, st1) \<Rightarrow> (Inl err, st1)
            | (Inr space, st1) \<Rightarrow>
                (Inr space,
                 set_container s
                   ((containers st1 s)\<lparr>param_spaces :=
                      AList.update argvalues space (param_spaces (containers st1 s))\<rparr>)
                   st1)))"

text \<open>
  \<^verbatim>\<open>get_space(args, kwargs)\<close> on the container \<open>s\<close>. The key of the cache \<^verbatim>\<open>param_spaces\<close> is
  \<^verbatim>\<open>ptr.argvalues\<close>. On a miss \<^verbatim>\<open>system.self\<close> is set to the container, the formula is evaluated and
  \<^verbatim>\<open>system.self\<close> is reset in the \<^verbatim>\<open>finally\<close> clause, on a return as on an exception; then the
  space is created and cached.
\<close>

definition get_space ::
  "env \<Rightarrow> sid \<Rightarrow> pyval list \<Rightarrow> (string, pyval) dict \<Rightarrow> state \<Rightarrow> (error + sid) \<times> state" where
  "get_space e s args kwargs st =
     (case bind_args e (paramfunc (containers st s)) args kwargs of
        Inl err \<Rightarrow> (Inl err, st)
      | Inr (argvalues, arguments_of_ptr) \<Rightarrow>
          (case map_of (param_spaces (containers st s)) argvalues of
             Some cached \<Rightarrow> (Inr cached, st)
           | None \<Rightarrow>
               (let last_self = system_self st;
                    (r, st1) = eval_formula e s arguments_of_ptr (st\<lparr>system_self := Some s\<rparr>);
                    st2 = st1\<lparr>system_self := last_self\<rparr>
                in case r of
                     Inl err \<Rightarrow> (Inl err, st2)
                   | Inr res \<Rightarrow> new_param_space e s argvalues arguments_of_ptr res st2)))"

subsection \<open>Invalidation: \<^verbatim>\<open>set_update\<close>\<close>

text \<open>\<open>fold_option f xs s\<close> runs \<open>f\<close> over \<open>xs\<close> from the state \<open>s\<close> and stops when a step fails.\<close>

primrec fold_option :: "('a \<Rightarrow> 's \<Rightarrow> 's option) \<Rightarrow> 'a list \<Rightarrow> 's \<Rightarrow> 's option" where
  "fold_option f [] s = Some s"
| "fold_option f (x # xs) s = (case f x s of None \<Rightarrow> None | Some s1 \<Rightarrow> fold_option f xs s1)"

text \<open>
  Modelled from the spec: \<^verbatim>\<open>LazyEvalDict.set_update\<close> (\<^verbatim>\<open>modelx/core/base.py\<close>) is not among the
  sources. By the spec's contract of \<^verbatim>\<open>mark_dirty\<close>, it sets the flag of the mapping (unless
  \<^verbatim>\<open>skip_self\<close>) and calls \<^verbatim>\<open>set_update()\<close> on every registered observer, which does the same
  in turn, without a guard against cycles. The first argument is the depth of calls that is
  left; the result is \<open>None\<close> when the propagation goes deeper, where the interpreter raises
  \<^verbatim>\<open>RecursionError\<close>.
\<close>

primrec set_update :: "nat \<Rightarrow> bool \<Rightarrow> lazy \<Rightarrow> state \<Rightarrow> state option" where
  "set_update 0 skip_self l st = None"
| "set_update (Suc n) skip_self l st =
     fold_option (set_update n False) (observers st l)
       (if skip_self then st else st\<lparr>needs_update := (needs_update st)(l := True)\<rparr>)"

subsection \<open>\<^verbatim>\<open>SpaceImpl.set_cells\<close>, \<^verbatim>\<open>new_cells\<close> and \<^verbatim>\<open>remove_cells\<close>\<close>

text \<open>
  \<^verbatim>\<open>set_cells\<close>: the assignment into \<^verbatim>\<open>_self_cells\<close> and \<^verbatim>\<open>_self_cells.set_update(skip_self=True)\<close>.
\<close>

definition set_cells :: "env \<Rightarrow> sid \<Rightarrow> string \<Rightarrow> cid \<Rightarrow> state \<Rightarrow> (error + unit) \<times> state" where
  "set_cells e s nm cell st =
     (let st1 = set_container s
                  ((containers st s)\<lparr>self_cells := AList.update nm cell (self_cells (containers st s))\<rparr>) st
      in case set_update (recursion_limit e) True (s, SelfCells) st1 of
           None \<Rightarrow> (Inl RecursionError, st1)
         | Some st2 \<Rightarrow> (Inr (), st2))"

text \<open>
  \<^verbatim>\<open>new_cells(name, func)\<close> with a name given: the cells object is created and entered with
  \<^verbatim>\<open>set_cells\<close> under its name.
\<close>

definition new_cells :: "env \<Rightarrow> sid \<Rightarrow> string \<Rightarrow> formula \<Rightarrow> state \<Rightarrow> (error + cid) \<times> state" where
  "new_cells e s nm func st =
     (let (cell, st1) = CellsImpl s nm func st
      in case set_cells e s (cells_name (cells_heap st1 cell)) cell st1 of
           (Inl err, st2) \<Rightarrow> (Inl err, st2)
         | (Inr u, st2) \<Rightarrow> (Inr cell, st2))"

text \<open>
  \<^verbatim>\<open>remove_cells(name)\<close>. An own cells object of that name loses its parent and is deleted from
  \<^verbatim>\<open>_self_cells\<close>. Then the loop over \<^verbatim>\<open>self.direct_bases\<close> runs; its body ends with \<^verbatim>\<open>break\<close>, so
  only the first direct base is looked at: when the name is among its cells, a cells object
  with the formula of the base cells is created with \<^verbatim>\<open>new_cells\<close> and assigned into
  \<^verbatim>\<open>_derived_cells\<close>.
\<close>

definition remove_cells :: "env \<Rightarrow> sid \<Rightarrow> string \<Rightarrow> state \<Rightarrow> (error + unit) \<times> state" where
  "remove_cells e s nm st =
     (let c = containers st s;
          st1 = (if nm \<in> set (keys (self_cells c))
                 then (let cell = the (map_of (self_cells c) nm)
                       in set_container s (c\<lparr>self_cells := AList.delete nm (self_cells c)\<rparr>)
                            (st\<lparr>cells_heap := (cells_heap st)
                                  (cell := (cells_heap st cell)\<lparr>cells_parent := None\<rparr>)\<rparr>))
                 else st)
      in case direct_bases (containers st1 s) of
           [] \<Rightarrow> (Inr (), st1)
         | base # others \<Rightarrow>
             (if nm \<in> set (keys (cells (containers st1 base)))
              then (let base_cells = the (map_of (cells (containers st1 base)) nm)
                    in case new_cells e s nm (cells_formula (cells_heap st1 base_cells)) st1 of
                         (Inl err, st2) \<Rightarrow> (Inl err, st2)
                       | (Inr cell, st2) \<Rightarrow>
                           (Inr (),
                            set_container s
                              ((containers st2 s)\<lparr>derived_cells :=
                                 AList.update nm cell (derived_cells (containers st2 s))\<rparr>)
                              st2))
              else (Inr (), st1)))"

subsection \<open>\<^verbatim>\<open>SpaceImpl.set_name\<close>\<close>

text \<open>
  Modelled from the spec: \<^verbatim>\<open>CellsImpl.has_single_value\<close> and \<^verbatim>\<open>CellsImpl.set_value\<close>
  (\<^verbatim>\<open>modelx/core/cells.py\<close>) are not among the sources. A cells object holds a single value when
  its formula has no parameters; \<^verbatim>\<open>set_value(args, v)\<close> stores \<open>v\<close> for \<open>args\<close> in the result store.
\<close>

definition has_single_value :: "cells_impl \<Rightarrow> bool" where
  "has_single_value cell = (f_params (cells_formula cell) = [])"

definition set_value :: "cid \<Rightarrow> pyval list \<Rightarrow> pyval \<Rightarrow> state \<Rightarrow> state" where
  "set_value cell args v st =
     st\<lparr>cells_heap := (cells_heap st)
          (cell := (cells_heap st cell)\<lparr>cells_data := AList.update args v (cells_data (cells_heap st cell))\<rparr>)\<rparr>"

definition not_a_scalar :: "string \<Rightarrow> error" where
  "not_a_scalar nm = AttributeError (''Cells '' @ [CHR 0x27] @ nm @ [CHR 0x27] @ '' is not a scalar.'')"

text \<open>
  \<^verbatim>\<open>set_name(name, value)\<close>. The mappings \<^verbatim>\<open>namespace\<close>, \<^verbatim>\<open>refs\<close> and \<^verbatim>\<open>cells\<close> are read as the state
  holds them. The tests of the source come in this order: a name of \<^verbatim>\<open>refs\<close> is assigned in
  \<^verbatim>\<open>refs\<close>, which is then invalidated together with its observers; otherwise a name of \<^verbatim>\<open>cells\<close>
  is given the value when the cells object holds a single value, and raises \<^verbatim>\<open>AttributeError\<close>
  when it does not; any other name of the namespace raises \<^verbatim>\<open>ValueError\<close>; a name that is not in
  the namespace is assigned in \<^verbatim>\<open>_self_refs\<close>, whose observers are invalidated.
\<close>

definition set_name :: "env \<Rightarrow> sid \<Rightarrow> string \<Rightarrow> pyval \<Rightarrow> state \<Rightarrow> (error + unit) \<times> state" where
  "set_name e s nm v st =
     (let c = containers st s
      in if \<not> is_valid_name e nm then (Inl (ValueError []), st)
         else if nm \<in> set (keys (namespace c)) then
           (if nm \<in> set (keys (refs c)) then
              (let st1 = set_container s (c\<lparr>refs := AList.update nm v (refs c)\<rparr>) st
               in case set_update (recursion_limit e) False (s, Refs) st1 of
                    None \<Rightarrow> (Inl RecursionError, st1)
                  | Some st2 \<Rightarrow> (Inr (), st2))
            else if nm \<in> set (keys (cells c)) then
              (let cell = the (map_of (cells c) nm)
               in if has_single_value (cells_heap st cell)
                  then (Inr (), set_value cell [] v st)
                  else (Inl (not_a_scalar nm), st))
            else (Inl (ValueError []), st))
         else
           (let st1 = set_container s (c\<lparr>self_refs := AList.update nm v (self_refs c)\<rparr>) st
            in case set_update (recursion_limit e) True (s, SelfRefs) st1 of
                 None \<Rightarrow> (Inl RecursionError, st1)
               | Some st2 \<Rightarrow> (Inr (), st2)))"

subsection \<open>Example states\<close>

text \<open>A container with every mapping empty, and a cells object without parameters.\<close>

definition empty_container :: container where
  "empty_container =
     \<lparr>is_space = True, name = [], parent = 0, paramfunc = None, param_spaces = [],
      spacenamer = 0, cellsnamer = 0, spaces_dict = [], arguments = [],
      direct_bases = [], mro = [], self_cells = [], self_spaces = [], self_refs = [],
      dynamic_spaces = [], derived_cells = [], derived_spaces = [], derived_refs = [],
      global_refs = [], static_spaces = [], refs = []\<rparr>"

definition plain_cells :: "sid \<Rightarrow> string \<Rightarrow> fid \<Rightarrow> cells_impl" where
  "plain_cells s nm f =
     \<lparr>cells_space = s, cells_parent = Some s, cells_name = nm,
      cells_formula = \<lparr>f_id = f, f_params = []\<rparr>, cells_data = []\<rparr>"

text \<open>
  A space \<open>P\<close> (\<open>0\<close>) with the own cells \<open>a\<close> and \<open>b\<close>, created in this order, and a space \<open>C\<close> (\<open>1\<close>)
  with the MRO \<open>[C, P]\<close> that holds a derived cell for \<open>a\<close> with the formula of \<open>P.a\<close>, as left
  by a recomputation that took place before \<open>b\<close> was created in \<open>P\<close>.
\<close>

definition inherit_state :: state where
  "inherit_state =
     \<lparr>containers = (\<lambda>s. empty_container)
        (0 := empty_container\<lparr>name := ''P'', mro := [0], self_cells := [(''a'', 0), (''b'', 1)]\<rparr>,
         1 := empty_container\<lparr>name := ''C'', mro := [1, 0], derived_cells := [(''a'', 2)]\<rparr>),
      next_sid = 2,
      cells_heap = (\<lambda>c. plain_cells 0 [] 0)
        (0 := plain_cells 0 ''a'' 10, 1 := plain_cells 0 ''b'' 11, 2 := plain_cells 1 ''a'' 10),
      next_cid = 3,
      system_self = None,
      needs_update = (\<lambda>l. False),
      observers = (\<lambda>l. [])\<rparr>"

text \<open>
  An environment for the examples: names are ASCII identifiers, the namer numbers its names
  (\<^verbatim>\<open>Space1\<close>, \<^verbatim>\<open>Space2\<close>, ...), arguments are bound by position, the parameter function is
  \<^verbatim>\<open>lambda ...: None\<close>, and the derived members of a space with bases are left empty.
\<close>

definition is_identifier :: "string \<Rightarrow> bool" where
  "is_identifier nm =
     (nm \<noteq> [] \<and>
      list_all (\<lambda>c. c \<in> set ''abcdefghijklmnopqrstuvwxyzABCDEFGHIJKLMNOPQRSTUVWXYZ0123456789_'') nm \<and>
      hd nm \<notin> set ''0123456789'')"

fun digit_char :: "nat \<Rightarrow> char" where
  "digit_char n = (''0123456789'' ! (n mod 10))"

fun nat_str :: "nat \<Rightarrow> string" where
  "nat_str n = (if n < 10 then [digit_char n] else nat_str (n div 10) @ [digit_char n])"

declare nat_str.simps [simp del]

definition example_env :: env where
  "example_env =
     \<lparr>is_valid_name = is_identifier,
      get_next = (\<lambda>k names. (''Space'' @ nat_str (Suc k), Suc k)),
      bind_args = (\<lambda>pf args kwargs.
        case pf of
          None \<Rightarrow> Inl (AttributeError ''NoneType object has no attribute signature'')
        | Some f \<Rightarrow>
            if length args = length (f_params f) \<and> kwargs = []
            then Inr (args, zip (f_params f) args)
            else Inl (TypeError ''too many positional arguments'')),
      call_formula = (\<lambda>f ns args st. (Inr None, st)),
      init_derived = (\<lambda>s st. (Inr (), st)),
      recursion_limit = 1000\<rparr>"

text \<open>
  A model (\<open>0\<close>) with the spaces \<open>A\<close> (\<open>1\<close>) and \<open>B\<close> (\<open>2\<close>), where \<open>B\<close> was created with the base \<open>A\<close>.
\<close>

definition model_container :: container where
  "model_container = empty_container\<lparr>is_space := False, name := ''Model1''\<rparr>"

definition conflict_state :: state where
  "conflict_state =
     \<lparr>containers = (\<lambda>s. empty_container)
        (0 := model_container\<lparr>spaces_dict := [(''A'', 1), (''B'', 2)]\<rparr>,
         1 := empty_container\<lparr>name := ''A'', mro := [1]\<rparr>,
         2 := empty_container\<lparr>name := ''B'', mro := [2, 1]\<rparr>),
      next_sid = 3,
      cells_heap = (\<lambda>c. plain_cells 0 [] 0),
      next_cid = 0,
      system_self = None,
      needs_update = (\<lambda>l. False),
      observers = (\<lambda>l. [])\<rparr>"

text \<open>
  A space (\<open>0\<close>) with the own cells \<open>foo\<close> and the child space \<open>bar\<close> (\<open>1\<close>).
\<close>

definition cell_state :: state where
  "cell_state =
     \<lparr>containers = (\<lambda>s. empty_container)
        (0 := empty_container\<lparr>name := ''Space1'', mro := [0], self_cells := [(''foo'', 0)],
                static_spaces := [(''bar'', 1)]\<rparr>,
         1 := empty_container\<lparr>name := ''bar'', parent := 0, mro := [1]\<rparr>),
      next_sid = 2,
      cells_heap = (\<lambda>c. plain_cells 0 ''foo'' 0),
      next_cid = 1,
      system_self = None,
      needs_update = (\<lambda>l. False),
      observers = (\<lambda>l. [])\<rparr>"

subsection \<open>The cache of parametrized spaces\<close>

text \<open>
  The cache \<^verbatim>\<open>param_spaces\<close> of the container \<open>s\<close> is in order when \<open>s\<close> and the cached spaces are
  objects that exist (their identities are below \<open>next_sid\<close>) and no space is cached under two
  keys.
\<close>

definition cache_ok :: "state \<Rightarrow> sid \<Rightarrow> bool" where
  "cache_ok st s =
     (s < next_sid st \<and>
      distinct (map snd (param_spaces (containers st s))) \<and>
      list_all (\<lambda>(k, v). v < next_sid st) (param_spaces (containers st s)))"

text \<open>
  From \<open>st\<close> to \<open>st'\<close> the cache of \<open>s\<close> stays in order, no identity is given back, and every space
  cached in \<open>st'\<close> was cached in \<open>st\<close> or was created since. The code that the sources do not
  hold (a formula, the first computation of derived members) is assumed to act on the cache
  of \<open>s\<close> in this way; \<^verbatim>\<open>get_space\<close> itself does (lemma \<open>get_space_extends\<close>), so a formula that calls
  \<^verbatim>\<open>get_space\<close> is covered.
\<close>

definition cache_extends :: "state \<Rightarrow> state \<Rightarrow> sid \<Rightarrow> bool" where
  "cache_extends st st' s =
     (cache_ok st' s \<and> next_sid st \<le> next_sid st' \<and>
      list_all (\<lambda>(k, v). v \<in> set (map snd (param_spaces (containers st s))) \<or> next_sid st \<le> v)
        (param_spaces (containers st' s)))"

definition callbacks_keep_cache :: "env \<Rightarrow> sid \<Rightarrow> bool" where
  "callbacks_keep_cache e s =
     ((\<forall>f ns a st. cache_ok st s \<longrightarrow> cache_extends st (snd (call_formula e f ns a st)) s) \<and>
      (\<forall>s' st. cache_ok st s \<longrightarrow> cache_extends st (snd (init_derived e s' st)) s))"

text \<open>
  The mapping of the parent in which \<^verbatim>\<open>__init__\<close> registers a new space: \<^verbatim>\<open>_dynamic_spaces\<close> or
  \<^verbatim>\<open>_static_spaces\<close> of a space, \<^verbatim>\<open>_spaces\<close> of a model.
\<close>

definition registered :: "container \<Rightarrow> bool \<Rightarrow> (string, sid) dict" where
  "registered pc dynamic =
     (if is_space pc then (if dynamic then dynamic_spaces pc else static_spaces pc)
      else spaces_dict pc)"

text \<open>
  A model (\<open>1\<close>) and a space (\<open>0\<close>) with the parameter function \<^verbatim>\<open>lambda a: ...\<close>, while the model is
  being evaluated; and an environment whose formulas assign \<^verbatim>\<open>system.self\<close> and raise.
\<close>

definition param_state :: state where
  "param_state =
     \<lparr>containers = (\<lambda>s. empty_container)
        (0 := empty_container\<lparr>name := ''Params'', parent := 1, mro := [0],
                paramfunc := Some \<lparr>f_id = 7, f_params = [''a'']\<rparr>\<rparr>,
         1 := model_container),
      next_sid = 2,
      cells_heap = (\<lambda>c. plain_cells 0 [] 0),
      next_cid = 0,
      system_self = Some 1,
      needs_update = (\<lambda>l. False),
      observers = (\<lambda>l. [])\<rparr>"

definition raising_env :: env where
  "raising_env =
     example_env\<lparr>call_formula :=
       (\<lambda>f ns a st. (Inl (FormulaError ''boom''), st\<lparr>system_self := None\<rparr>))\<rparr>"

section \<open>Properties\<close>

subsection \<open>Properties of the C3 merge\<close>

lemma c3_loop_done:
  "filter (\<lambda>s. s \<noteq> []) seqs = [] \<Longrightarrow> c3_loop seqs res = Inr (res, seqs)"
  by (simp add: c3_loop.simps)

lemma c3_loop_step:
  "filter (\<lambda>s. s \<noteq> []) seqs \<noteq> [] \<Longrightarrow>
   c3_loop seqs res =
     (case find_candidate (filter (\<lambda>s. s \<noteq> []) seqs) (filter (\<lambda>s. s \<noteq> []) seqs) of
        None \<Rightarrow> Inl inconsistent_hierarchy
      | Some c \<Rightarrow> c3_loop (map (remove_head c) seqs) (res @ [c]))"
  by (simp add: c3_loop.simps [of seqs res] Let_def)

lemma all_empty_map: "\<forall>s\<in>set seqs. s = [] \<Longrightarrow> seqs = map (\<lambda>s. []) seqs"
  by (induction seqs) auto

lemma remove_head_subseq: "subseq (remove_head c s) s"
  by (cases s) auto

lemma c3_loop_subseq:
  "c3_loop seqs res = Inr (out, seqs') \<Longrightarrow> s \<in> set seqs \<Longrightarrow> \<exists>r. out = res @ r \<and> subseq s r"
proof (induction seqs res arbitrary: s rule: c3_loop.induct)
  case (1 seqs res)
  let ?ne = "filter (\<lambda>s. s \<noteq> []) seqs"
  show ?case
  proof (cases "?ne = []")
    case True
    with "1.prems" have "out = res" by (simp add: c3_loop_done)
    moreover from True "1.prems"(2) have "s = []" by (auto simp: filter_empty_conv)
    ultimately show ?thesis by simp
  next
    case False
    from False "1.prems"(1) obtain c where c: "find_candidate ?ne ?ne = Some c"
      and rec: "c3_loop (map (remove_head c) seqs) (res @ [c]) = Inr (out, seqs')"
      by (auto simp: c3_loop_step split: option.splits)
    from "1.prems"(2) have "remove_head c s \<in> set (map (remove_head c) seqs)" by simp
    from "1.IH" [OF refl False c rec this]
    obtain r where r: "out = (res @ [c]) @ r" "subseq (remove_head c s) r" by blast
    have "subseq s (c # r)"
    proof (cases s)
      case Nil
      then show ?thesis by simp
    next
      case (Cons x xs)
      with r(2) show ?thesis by (auto split: if_splits)
    qed
    with r(1) show ?thesis by simp
  qed
qed

lemma c3_loop_final:
  "c3_loop seqs res = Inr (out, seqs') \<Longrightarrow> seqs' = map (\<lambda>s. []) seqs"
proof (induction seqs res rule: c3_loop.induct)
  case (1 seqs res)
  let ?ne = "filter (\<lambda>s. s \<noteq> []) seqs"
  show ?case
  proof (cases "?ne = []")
    case True
    with "1.prems" have "seqs' = seqs" by (simp add: c3_loop_done)
    moreover from True have "\<forall>s\<in>set seqs. s = []" by (auto simp: filter_empty_conv)
    ultimately show ?thesis using all_empty_map by blast
  next
    case False
    from False "1.prems"(1) obtain c where c: "find_candidate ?ne ?ne = Some c"
      and rec: "c3_loop (map (remove_head c) seqs) (res @ [c]) = Inr (out, seqs')"
      by (auto simp: c3_loop_step split: option.splits)
    from "1.IH" [OF refl False c rec] show ?thesis by (simp add: comp_def)
  qed
qed

lemma find_candidate_not_in_tail:
  "find_candidate ne xs = Some c \<Longrightarrow> s \<in> set ne \<Longrightarrow> c \<notin> set (tl s)"
  by (induction ne xs rule: find_candidate.induct) (auto simp: list_ex_iff split: if_splits)

lemma remove_head_notin:
  "c \<notin> set (tl s) \<Longrightarrow> c \<notin> set (remove_head c s)"
  by (cases s) auto

lemma remove_head_set: "set (remove_head c s) \<subseteq> set s"
  by (cases s) auto

lemma c3_loop_set:
  "c3_loop seqs res = Inr (out, seqs') \<Longrightarrow> set out = set res \<union> \<Union> (set ` set seqs)"
proof (induction seqs res rule: c3_loop.induct)
  case (1 seqs res)
  let ?ne = "filter (\<lambda>s. s \<noteq> []) seqs"
  show ?case
  proof (cases "?ne = []")
    case True
    with "1.prems" have "out = res" by (simp add: c3_loop_done)
    moreover from True have "\<forall>s\<in>set seqs. s = []" by (auto simp: filter_empty_conv)
    ultimately show ?thesis by auto
  next
    case False
    from False "1.prems"(1) obtain c where c: "find_candidate ?ne ?ne = Some c"
      and rec: "c3_loop (map (remove_head c) seqs) (res @ [c]) = Inr (out, seqs')"
      by (auto simp: c3_loop_step split: option.splits)
    from find_candidate_head [OF c] obtain t where t: "(c # t) \<in> set seqs" by auto
    have "\<Union> (set ` set seqs) = insert c (\<Union> (set ` set (map (remove_head c) seqs)))"
    proof (intro equalityI subsetI)
      fix x assume "x \<in> \<Union> (set ` set seqs)"
      then obtain s where s: "s \<in> set seqs" "x \<in> set s" by auto
      show "x \<in> insert c (\<Union> (set ` set (map (remove_head c) seqs)))"
      proof (cases "x = c")
        case True then show ?thesis by simp
      next
        case False
        with s(2) have "x \<in> set (remove_head c s)" by (cases s) auto
        with s(1) show ?thesis by auto
      qed
    next
      fix x assume "x \<in> insert c (\<Union> (set ` set (map (remove_head c) seqs)))"
      then show "x \<in> \<Union> (set ` set seqs)"
        using t remove_head_set by fastforce
    qed
    with "1.IH" [OF refl False c rec] show ?thesis by auto
  qed
qed

lemma c3_loop_distinct:
  "c3_loop seqs res = Inr (out, seqs') \<Longrightarrow> distinct res \<Longrightarrow>
   set res \<inter> \<Union> (set ` set seqs) = {} \<Longrightarrow> distinct out"
proof (induction seqs res rule: c3_loop.induct)
  case (1 seqs res)
  let ?ne = "filter (\<lambda>s. s \<noteq> []) seqs"
  show ?case
  proof (cases "?ne = []")
    case True
    with "1.prems" show ?thesis by (simp add: c3_loop_done)
  next
    case False
    from False "1.prems"(1) obtain c where c: "find_candidate ?ne ?ne = Some c"
      and rec: "c3_loop (map (remove_head c) seqs) (res @ [c]) = Inr (out, seqs')"
      by (auto simp: c3_loop_step split: option.splits)
    from find_candidate_head [OF c] obtain t where t: "(c # t) \<in> set seqs" by auto
    have notin: "c \<notin> set (remove_head c s)" if "s \<in> set seqs" for s
    proof (cases "s = []")
      case True then show ?thesis by simp
    next
      case False
      with that have "s \<in> set ?ne" by simp
      from find_candidate_not_in_tail [OF c this] show ?thesis by (rule remove_head_notin)
    qed
    from t have "c \<in> \<Union> (set ` set seqs)" by force
    with "1.prems"(3) have "c \<notin> set res" by blast
    with "1.prems"(2) have d: "distinct (res @ [c])" by simp
    have "set (res @ [c]) \<inter> \<Union> (set ` set (map (remove_head c) seqs)) = {}"
      using "1.prems"(3) notin remove_head_set by fastforce
    from "1.IH" [OF refl False c rec d this] show ?thesis .
  qed
qed

lemma update_mro_props:
  assumes "update_mro m s bs = Inr (l, bs')"
  shows "\<exists>res. l = s # res \<and> distinct res \<and> subseq bs res \<and>
           (\<forall>b\<in>set bs. subseq (m b) res) \<and>
           set res = set bs \<union> (\<Union>b\<in>set bs. set (m b))"
    and "bs' = []"
proof -
  from assms obtain res seqs' where
    loop: "c3_loop (map m bs @ [bs]) [] = Inr (res, seqs')" and l: "l = s # res"
    and b: "bs' = last seqs'"
    by (auto simp: update_mro_def split: sum.splits)
  have 1: "distinct res" using c3_loop_distinct [OF loop] by simp
  have 2: "subseq bs res" using c3_loop_subseq [OF loop, of bs] by simp
  have 3: "\<forall>b\<in>set bs. subseq (m b) res"
    using c3_loop_subseq [OF loop] by simp
  have 4: "set res = set bs \<union> (\<Union>b\<in>set bs. set (m b))"
    using c3_loop_set [OF loop] by auto
  from l 1 2 3 4 show "\<exists>res. l = s # res \<and> distinct res \<and> subseq bs res \<and>
           (\<forall>b\<in>set bs. subseq (m b) res) \<and>
           set res = set bs \<union> (\<Union>b\<in>set bs. set (m b))" by blast
  from c3_loop_final [OF loop] b show "bs' = []" by simp
qed

lemma mro_in_upd: "x \<noteq> s \<Longrightarrow> mro_in (h(s \<mapsto> v)) x = mro_in h x"
  by (simp add: mro_in_def)

lemma mro_in_self: "mro_in (h(s \<mapsto> (bs, l))) s = l"
  by (simp add: mro_in_def)

lemma linearized_head: "linearized h \<Longrightarrow> h b \<noteq> None \<Longrightarrow> b \<in> set (mro_in h b)"
  by (force simp: linearized_def mro_in_def)

lemma linearized_closed:
  "linearized h \<Longrightarrow> h b \<noteq> None \<Longrightarrow> x \<in> set (mro_in h b) \<Longrightarrow>
   h x \<noteq> None \<and> subseq (mro_in h x) (mro_in h b)"
  by (force simp: linearized_def mro_in_def)

lemma hierarchy_linearized: "hierarchy h \<Longrightarrow> linearized h"
proof (induction rule: hierarchy.induct)
  case hierarchy_empty
  show ?case by (simp add: linearized_def)
next
  case (hierarchy_new h s bs l bs')
  let ?h = "h(s \<mapsto> (bs, l))"
  from hierarchy_new.hyps(3) have dom: "\<And>b. b \<in> set bs \<Longrightarrow> h b \<noteq> None"
    by (simp add: list_all_iff)
  from update_mro_props(1) [OF hierarchy_new.hyps(4)] obtain res where
    l: "l = s # res" and dres: "distinct res" and sb: "subseq bs res"
    and sm: "\<forall>b\<in>set bs. subseq (mro_in h b) res"
    and sr: "set res = set bs \<union> (\<Union>b\<in>set bs. set (mro_in h b))" by blast
  have old: "h x \<noteq> None \<and> (\<exists>b\<in>set bs. subseq (mro_in h x) (mro_in h b))"
    if "x \<in> set res" for x
  proof -
    from that sr consider "x \<in> set bs" | b where "b \<in> set bs" "x \<in> set (mro_in h b)"
      by blast
    then show ?thesis
    proof cases
      case 1
      with dom show ?thesis by blast
    next
      case 2
      from linearized_closed [OF hierarchy_new.IH dom [OF 2(1)] 2(2)] 2(1)
      show ?thesis by blast
    qed
  qed
  have ne: "x \<noteq> s" if "x \<in> set res" for x
    using old [OF that] hierarchy_new.hyps(2) by auto
  have new: "(\<exists>res. l = s # res \<and> distinct l \<and> subseq bs res \<and>
        (\<forall>b\<in>set bs. subseq (mro_in ?h b) res)) \<and>
     (\<forall>x\<in>set l. ?h x \<noteq> None \<and> subseq (mro_in ?h x) l)"
  proof (intro conjI ballI)
    have "s \<notin> set res" using ne by blast
    with dres l have "distinct l" by simp
    moreover have "\<forall>b\<in>set bs. subseq (mro_in ?h b) res"
    proof
      fix b assume b: "b \<in> set bs"
      from dom [OF b] hierarchy_new.hyps(2) have "b \<noteq> s" by auto
      with sm b show "subseq (mro_in ?h b) res" by (simp add: mro_in_upd)
    qed
    ultimately show "\<exists>res. l = s # res \<and> distinct l \<and> subseq bs res \<and>
        (\<forall>b\<in>set bs. subseq (mro_in ?h b) res)" using l sb by blast
  next
    fix x assume "x \<in> set l"
    with l old show "?h x \<noteq> None" by auto
  next
    fix x assume x: "x \<in> set l"
    show "subseq (mro_in ?h x) l"
    proof (cases "x = s")
      case True
      then show ?thesis by (simp add: mro_in_self)
    next
      case False
      with x l have xr: "x \<in> set res" by simp
      from old [OF xr] obtain b where b: "b \<in> set bs" "subseq (mro_in h x) (mro_in h b)"
        by blast
      from sm b(1) have "subseq (mro_in h b) res" by blast
      with b(2) have "subseq (mro_in h x) res" by (rule subseq_order.order_trans)
      with l False show ?thesis by (auto simp: mro_in_upd)
    qed
  qed
  show ?case unfolding linearized_def
  proof (intro allI impI)
    fix s' bs'' l'
    assume a: "?h s' = Some (bs'', l')"
    show "(\<exists>res. l' = s' # res \<and> distinct l' \<and> subseq bs'' res \<and>
             (\<forall>b\<in>set bs''. subseq (mro_in ?h b) res)) \<and>
          (\<forall>x\<in>set l'. ?h x \<noteq> None \<and> subseq (mro_in ?h x) l')"
    proof (cases "s' = s")
      case True
      with a new show ?thesis by simp
    next
      case False
      with a have hs: "h s' = Some (bs'', l')" by simp
      with hierarchy_new.IH have o:
        "(\<exists>res. l' = s' # res \<and> distinct l' \<and> subseq bs'' res \<and>
             (\<forall>b\<in>set bs''. subseq (mro_in h b) res))"
        "\<forall>x\<in>set l'. h x \<noteq> None \<and> subseq (mro_in h x) l'"
        unfolding linearized_def by blast+
      from o(2) hierarchy_new.hyps(2) have nes: "\<forall>x\<in>set l'. x \<noteq> s" by auto
      from o(1) obtain res' where r: "l' = s' # res'" "distinct l'" "subseq bs'' res'"
        "\<forall>b\<in>set bs''. subseq (mro_in h b) res'" by blast
      have "set bs'' \<subseteq> set l'" using r(1,3) by (auto dest: list_emb_set)
      with nes r(4) have "\<forall>b\<in>set bs''. subseq (mro_in ?h b) res'"
        by (auto simp: mro_in_upd)
      moreover from o(2) nes have "\<forall>x\<in>set l'. ?h x \<noteq> None \<and> subseq (mro_in ?h x) l'"
        by (auto simp: mro_in_upd)
      ultimately show ?thesis using r by blast
    qed
  qed
qed


lemma subseq_tl_self: "subseq (tl xs) xs"
  by (cases xs) auto

lemma direct_baseD:
  "(x, y) \<in> direct_base h \<Longrightarrow> \<exists>bs l. h x = Some (bs, l) \<and> y \<in> set bs"
  by (cases "h x") (auto simp: direct_base_def bases_in_def)

lemma direct_base_subseq:
  assumes "linearized h" and "(x, y) \<in> direct_base h"
  shows "subseq (mro_in h y) (tl (mro_in h x))"
proof -
  from direct_baseD [OF assms(2)] obtain bs l where hx: "h x = Some (bs, l)" and y: "y \<in> set bs"
    by blast
  from assms(1) hx obtain res where "l = x # res" "\<forall>b\<in>set bs. subseq (mro_in h b) res"
    unfolding linearized_def by blast
  with y hx show ?thesis by (simp add: mro_in_def)
qed

lemma transitive_base_subseq:
  assumes "linearized h" and "(x, y) \<in> (direct_base h)\<^sup>+"
  shows "subseq (mro_in h y) (tl (mro_in h x))"
  using assms(2)
proof (induction rule: trancl_induct)
  case (base y)
  then show ?case by (rule direct_base_subseq [OF assms(1)])
next
  case (step y z)
  have "subseq (mro_in h z) (tl (mro_in h y))"
    by (rule direct_base_subseq [OF assms(1) step.hyps(2)])
  then have "subseq (mro_in h z) (mro_in h y)"
    by (rule subseq_order.order_trans) (rule subseq_tl_self)
  then show ?case by (rule subseq_order.order_trans) (rule step.IH)
qed

lemma subseq_pair_precedes: "subseq [x, y] l \<Longrightarrow> precedes l x y"
  unfolding precedes_def
proof (induction l)
  case Nil
  then show ?case by simp
next
  case (Cons a l)
  show ?case
  proof (cases "a = x")
    case True
    with Cons.prems have "subseq [y] l" by (auto dest: subseq_Cons')
    then have "y \<in> set l" by (simp add: subseq_singleton_left)
    with True show ?thesis by simp
  next
    case False
    with Cons.prems have "subseq [x, y] l" by simp
    from Cons.IH [OF this] False show ?thesis by simp
  qed
qed

lemma linearized_precedes:
  assumes "linearized h" and "h s = Some (bs, l)" and "x \<in> set l"
    and "(x, y) \<in> (direct_base h)\<^sup>+"
  shows "precedes l x y"
proof -
  from assms(1,2,3) have hx: "h x \<noteq> None" and sx: "subseq (mro_in h x) l"
    unfolding linearized_def by blast+
  from hx obtain bx lx where hx': "h x = Some (bx, lx)" by auto
  with assms(1) obtain rx where lx: "lx = x # rx" unfolding linearized_def by blast
  from hx' have mx: "mro_in h x = lx" by (simp add: mro_in_def)
  from transitive_base_subseq [OF assms(1,4)] mx lx have "subseq (mro_in h y) rx" by simp
  moreover have "y \<in> set (mro_in h y)"
  proof -
    from assms(4) obtain w where "(w, y) \<in> direct_base h" by (auto dest: tranclD2)
    from direct_baseD [OF this] obtain bw lw where hw: "h w = Some (bw, lw)" and y: "y \<in> set bw"
      by blast
    from assms(1) hw obtain rw where "lw = w # rw" "subseq bw rw" unfolding linearized_def by blast
    with y have "y \<in> set lw" by (auto dest: list_emb_set)
    with assms(1) hw have "h y \<noteq> None" unfolding linearized_def by blast
    from linearized_head [OF assms(1) this] show ?thesis .
  qed
  ultimately have "y \<in> set rx" by (auto dest: list_emb_set)
  then have "subseq [x, y] (x # rx)" by (simp add: subseq_singleton_left)
  with mx lx have "subseq [x, y] (mro_in h x)" by simp
  then have "subseq [x, y] l" by (rule subseq_order.order_trans) (rule sx)
  then show ?thesis by (rule subseq_pair_precedes)
qed

text \<open>
  Claim C1. Let a space \<open>s\<close> be constructed over direct bases \<open>bs\<close> that exist in a hierarchy
  built by earlier constructions, and let \<^verbatim>\<open>_update_mro\<close> succeed with the linearization \<open>l\<close>.
  Then \<open>l\<close> starts with \<open>s\<close> itself and has no repetition; the direct bases occur in \<open>l\<close> after
  \<open>s\<close> in the order they were given; every space of \<open>l\<close> precedes in \<open>l\<close> each of its transitive
  bases, and the direct bases every space of \<open>l\<close> was declared with keep their order in \<open>l\<close>;
  and the result is a function of the direct bases, their order and their linearizations
  alone: computed again from the same bases it is the same list.
\<close>

theorem c3_linearization:
  assumes "hierarchy h" and "h s = None" and "list_all (\<lambda>b. h b \<noteq> None) bs"
    and "update_mro (mro_in h) s bs = Inr (l, bs')"
  shows "hd l = s \<and> distinct l \<and> subseq bs (tl l) \<and>
         (\<forall>x y. x \<in> set l \<and> (x, y) \<in> (direct_base (h(s \<mapsto> (bs, l))))\<^sup>+ \<longrightarrow> precedes l x y) \<and>
         (\<forall>x. x \<in> set l \<longrightarrow> subseq (bases_in (h(s \<mapsto> (bs, l))) x) l) \<and>
         (\<forall>m. (\<forall>b. b \<in> set bs \<longrightarrow> m b = mro_in h b) \<longrightarrow> update_mro m s bs = Inr (l, bs'))"
proof -
  let ?h = "h(s \<mapsto> (bs, l))"
  have hier: "hierarchy ?h" using assms by (rule hierarchy_new)
  then have lin: "linearized ?h" by (rule hierarchy_linearized)
  have hs: "?h s = Some (bs, l)" by simp
  from lin hs obtain res where l: "l = s # res" and d: "distinct l" and sb: "subseq bs res"
    unfolding linearized_def by blast
  have prec: "\<forall>x y. x \<in> set l \<and> (x, y) \<in> (direct_base ?h)\<^sup>+ \<longrightarrow> precedes l x y"
    using linearized_precedes [OF lin hs] by blast
  have loc: "\<forall>x. x \<in> set l \<longrightarrow> subseq (bases_in ?h x) l"
  proof (intro allI impI)
    fix x assume x: "x \<in> set l"
    with lin hs have hx: "?h x \<noteq> None" and sx: "subseq (mro_in ?h x) l"
      unfolding linearized_def by blast+
    from hx obtain bx lx where hx': "?h x = Some (bx, lx)" by auto
    with lin obtain rx where "lx = x # rx" "subseq bx rx" unfolding linearized_def by blast
    then have "subseq bx lx" by auto
    moreover from hx' have "bases_in ?h x = bx" "mro_in ?h x = lx"
      by (simp_all add: bases_in_def mro_in_def)
    ultimately have "subseq (bases_in ?h x) (mro_in ?h x)" by simp
    then show "subseq (bases_in ?h x) l" by (rule subseq_order.order_trans) (rule sx)
  qed
  have det: "\<forall>m. (\<forall>b. b \<in> set bs \<longrightarrow> m b = mro_in h b) \<longrightarrow> update_mro m s bs = Inr (l, bs')"
  proof (intro allI impI)
    fix m assume "\<forall>b. b \<in> set bs \<longrightarrow> m b = mro_in h b"
    then have e: "map m bs = map (mro_in h) bs" by simp
    from assms(4) show "update_mro m s bs = Inr (l, bs')" unfolding update_mro_def e .
  qed
  from l have "hd l = s" by simp
  moreover from l sb have "subseq bs (tl l)" by simp
  ultimately show ?thesis using d prec loc det by blast
qed

lemma hierarchy_diamond_b: "hierarchy diamond_b"
proof -
  have 1: "hierarchy diamond_o" unfolding diamond_o_def
    by (rule hierarchy_new [OF hierarchy_empty, where bs' = "[]"]) (simp, simp, code_simp)
  have 2: "hierarchy diamond_a" unfolding diamond_a_def
    by (rule hierarchy_new [OF 1, where bs' = "[]"]) (simp add: diamond_o_def, simp add: diamond_o_def, code_simp)
  show ?thesis unfolding diamond_b_def
    by (rule hierarchy_new [OF 2, where bs' = "[]"])
       (simp add: diamond_o_def diamond_a_def, simp add: diamond_o_def diamond_a_def, code_simp)
qed

theorem c3_linearization_witness:
  "hierarchy diamond_b \<and> diamond_b 3 = None \<and> list_all (\<lambda>b. diamond_b b \<noteq> None) [1, 2] \<and>
   update_mro (mro_in diamond_b) 3 [1, 2] = Inr ([3, 1, 2, 0], []) \<and>
   hd [3, 1, 2, 0] = (3::nat) \<and> distinct [3, 1, 2, 0::nat] \<and> subseq [1, 2] (tl [3, 1, 2, 0::nat]) \<and>
   precedes [3, 1, 2, 0] 1 0 \<and> precedes [3, 1, 2, 0] 3 0"
proof -
  have a: "diamond_b 3 = None" by (simp add: diamond_b_def diamond_a_def diamond_o_def)
  have b: "list_all (\<lambda>b. diamond_b b \<noteq> None) [1, 2]" by (simp add: diamond_b_def diamond_a_def diamond_o_def)
  have c: "update_mro (mro_in diamond_b) 3 [1, 2] = Inr ([3, 1, 2, 0], [])" by code_simp
  note t = c3_linearization [OF hierarchy_diamond_b a b c]
  have d1: "(1, 0) \<in> (direct_base (diamond_b(3 \<mapsto> ([1, 2], [3, 1, 2, 0]))))\<^sup>+"
    by (rule r_into_trancl) (simp add: direct_base_def bases_in_def diamond_b_def diamond_a_def diamond_o_def)
  have d3: "(3, 1) \<in> direct_base (diamond_b(3 \<mapsto> ([1, 2], [3, 1, 2, 0])))"
    by (simp add: direct_base_def bases_in_def)
  from d3 d1 have d30: "(3, 0) \<in> (direct_base (diamond_b(3 \<mapsto> ([1, 2], [3, 1, 2, 0]))))\<^sup>+"
    by (rule trancl_into_trancl2)
  from t d1 have p1: "precedes [3, 1, 2, 0] 1 0" by simp
  from t d30 have p3: "precedes [3, 1, 2, 0] 3 0" by simp
  from hierarchy_diamond_b a b c t p1 p3 show ?thesis by simp
qed

subsection \<open>Derived cells\<close>

lemma base_cells_inherit_state: "base_cells inherit_state 1 = [(''a'', 0), (''b'', 1)]"
  by (simp add: base_cells_def base_members_update_def inherit_state_def empty_container_def
      self_members_keys_def keys_def dict_update_def)

text \<open>
  Claim C3. Derived cells are to be kept, created or removed for every inheritable name of one
  recomputation. In \<open>inherit_state\<close> the inheritable cells of \<open>C\<close> are \<open>a\<close> and \<open>b\<close>. The recomputation
  finds the derived cell of \<open>a\<close> with the formula of the base cell and returns: the derived
  cells of \<open>C\<close> are unchanged and no derived cell is created for the inheritable name \<open>b\<close>.
\<close>

theorem update_data_cells_skips_inheritable_name:
  "base_cells inherit_state 1 = [(''a'', 0), (''b'', 1)] \<and>
   derived_cells (containers (update_data_cells 1 inherit_state) 1) = [(''a'', 2)] \<and>
   ''b'' \<notin> set (keys (derived_cells (containers (update_data_cells 1 inherit_state) 1)))"
proof -
  have 1: "base_cells inherit_state 1 = [(''a'', 0), (''b'', 1)]" by (rule base_cells_inherit_state)
  have 2: "derived_cells (containers (update_data_cells 1 inherit_state) 1) = [(''a'', 2)]"
    unfolding update_data_cells_def 1
    by (simp add: inherit_state_def empty_container_def keys_def plain_cells_def set_container_def)
  from 1 2 show ?thesis by (simp add: keys_def)
qed

lemma update_data_cells_loop_return:
  "key \<in> set (keys data) \<Longrightarrow>
   f_id (cells_formula (cells_heap st (the (map_of data key)))) = f_id (cells_formula (cells_heap st base_cell)) \<Longrightarrow>
   update_data_cells_loop s ((key, base_cell) # rest) data st = (data, st)"
  by simp

subsection \<open>Reverting a derived member\<close>

text \<open>
  Claim C9. For every space and every name \<^verbatim>\<open>revert_derived\<close> raises \<^verbatim>\<open>NotImplementedError\<close>, and the
  state after the call is the state before it: nothing is restored and nothing is changed.
\<close>

theorem revert_derived_unsupported:
  "revert_derived s nm st = (Inl NotImplementedError, st)"
  by (simp add: revert_derived_def)

subsection \<open>Construction of a space\<close>

lemma c3_loop_error: "c3_loop seqs res = Inl err \<Longrightarrow> err = inconsistent_hierarchy"
proof (induction seqs res rule: c3_loop.induct)
  case (1 seqs res)
  let ?ne = "filter (\<lambda>s. s \<noteq> []) seqs"
  show ?case
  proof (cases "?ne = []")
    case True
    with "1.prems" show ?thesis by (simp add: c3_loop_done)
  next
    case False
    show ?thesis
    proof (cases "find_candidate ?ne ?ne")
      case None
      with False "1.prems" show ?thesis by (simp add: c3_loop_step)
    next
      case (Some c)
      with False "1.prems" have "c3_loop (map (remove_head c) seqs) (res @ [c]) = Inl err"
        by (simp add: c3_loop_step)
      from "1.IH" [OF refl False Some this] show ?thesis .
    qed
  qed
qed

lemma spaces_spacenamer [simp]: "spaces (c\<lparr>spacenamer := k\<rparr>) = spaces c"
  by (simp add: spaces_def)

lemma has_space_spacenamer [simp]: "has_space (c\<lparr>spacenamer := k\<rparr>) nm = has_space c nm"
  by (simp add: has_space_def)

lemma containers_set_container:
  "containers (set_container p c st) = (containers st)(p := c)"
  by (simp add: set_container_def)

lemma namer_advanced_props:
  "has_space (containers (namer_advanced e p name_arg st) p) nm = has_space (containers st p) nm"
  "mro (containers (namer_advanced e p name_arg st) b) = mro (containers st b)"
  "is_space (containers (namer_advanced e p name_arg st) b) = is_space (containers st b)"
  "next_sid (namer_advanced e p name_arg st) = next_sid st"
  "spaces (containers (namer_advanced e p name_arg st) b) = spaces (containers st b)"
  by (auto simp: namer_advanced_def set_container_def split: option.splits)

lemma direct_bases_of_namer:
  "direct_bases_of (namer_advanced e p name_arg st) bases = direct_bases_of st bases"
  by (simp add: direct_bases_of_def namer_advanced_props split: bases_arg.splits)

lemma new_space_unfold:
  "new_space e p name_arg bases pf args st =
     (let nm = requested_name e (containers st p) name_arg;
          st1 = namer_advanced e p name_arg st
      in if has_space (containers st p) nm then (Inl name_already_assigned, st1)
         else if \<not> is_valid_name e nm then (Inl (invalid_name nm), st1)
         else
           (case direct_bases_of st bases of
              Inl err \<Rightarrow> (Inl err, st1)
            | Inr db \<Rightarrow>
                (let s = next_sid st
                 in case update_mro (\<lambda>b. mro (containers st b)) s db of
                      Inl err \<Rightarrow> (Inl err, st1)
                    | Inr (mro_list, db1) \<Rightarrow>
                        (let c = \<lparr>is_space = True, name = nm, parent = p, paramfunc = pf,
                                  param_spaces = [], spacenamer = 0, cellsnamer = 0,
                                  spaces_dict = [],
                                  arguments = (case args of None \<Rightarrow> [] | Some a \<Rightarrow> a),
                                  direct_bases = db1, mro = mro_list,
                                  self_cells = [], self_spaces = [], self_refs = [],
                                  dynamic_spaces = [], derived_cells = [], derived_spaces = [],
                                  derived_refs = [], global_refs = [], static_spaces = [],
                                  refs = []\<rparr>;
                             st2 = (set_container s c st1)\<lparr>next_sid := Suc s\<rparr>;
                             (r, st3) = init_members e s st2
                         in case r of
                              Inl err \<Rightarrow> (Inl err, st3)
                            | Inr u \<Rightarrow> (Inr s, register_space p s st3)))))"
proof (cases name_arg)
  case None
  obtain n k where g: "get_next e (spacenamer (containers st p)) (keys (spaces (containers st p))) = (n, k)"
    by (cases "get_next e (spacenamer (containers st p)) (keys (spaces (containers st p)))")
  have m: "(\<lambda>b. mro (containers (namer_advanced e p None st) b)) = (\<lambda>b. mro (containers st b))"
    by (simp add: namer_advanced_props)
  have st1: "namer_advanced e p None st = set_container p ((containers st p)\<lparr>spacenamer := k\<rparr>) st"
    by (simp add: namer_advanced_def g)
  show ?thesis
    unfolding new_space_def None
    by (simp add: g requested_name_def Let_def st1 [symmetric] m direct_bases_of_namer
        namer_advanced_props cong: sum.case_cong)
next
  case (Some n)
  show ?thesis
    unfolding new_space_def Some
    by (simp add: requested_name_def namer_advanced_def Let_def)
qed

text \<open>
  Claim C4. Let the argument \<^verbatim>\<open>bases\<close> give direct bases for which the C3 merge finds no
  candidate at some step. Then the construction raises: with a name that is free and valid
  the error is the \<^verbatim>\<open>TypeError\<close> "inconsistent hierarchy, no C3 MRO is possible" (a name that is
  taken or invalid is reported first, by its own error). Nothing is constructed or registered:
  the state afterwards is the state before with at most the namer of the parent advanced, so
  no identity is used up, no container has a new child space, and with a given name the state
  is unchanged.
\<close>

theorem new_space_inconsistent_bases:
  assumes "direct_bases_of st bases = Inr db"
    and "c3_loop (map (\<lambda>b. mro (containers st b)) db @ [db]) [] = Inl err"
  shows "fst (new_space e p name_arg bases pf args st) =
           Inl (if has_space (containers st p) (requested_name e (containers st p) name_arg)
                then name_already_assigned
                else if \<not> is_valid_name e (requested_name e (containers st p) name_arg)
                then invalid_name (requested_name e (containers st p) name_arg)
                else inconsistent_hierarchy) \<and>
         snd (new_space e p name_arg bases pf args st) = namer_advanced e p name_arg st \<and>
         next_sid (snd (new_space e p name_arg bases pf args st)) = next_sid st \<and>
         (\<forall>q. spaces (containers (snd (new_space e p name_arg bases pf args st)) q) =
              spaces (containers st q)) \<and>
         (\<forall>nm. snd (new_space e p (Some nm) bases pf args st) = st)"
proof -
  from assms(2) have "err = inconsistent_hierarchy" by (rule c3_loop_error)
  with assms(2) have u: "update_mro (\<lambda>b. mro (containers st b)) (next_sid st) db = Inl inconsistent_hierarchy"
    by (simp add: update_mro_def)
  have r: "new_space e p name_arg bases pf args st =
      (Inl (if has_space (containers st p) (requested_name e (containers st p) name_arg)
            then name_already_assigned
            else if \<not> is_valid_name e (requested_name e (containers st p) name_arg)
            then invalid_name (requested_name e (containers st p) name_arg)
            else inconsistent_hierarchy), namer_advanced e p name_arg st)" for name_arg
    by (simp add: new_space_unfold Let_def assms(1) u)
  show ?thesis
    by (simp add: r namer_advanced_props) (simp add: namer_advanced_def)
qed

theorem new_space_inconsistent_bases_witness:
  "direct_bases_of conflict_state (BasesSeq [1, 2]) = Inr [1, 2] \<and>
   c3_loop (map (\<lambda>b. mro (containers conflict_state b)) [1, 2] @ [[1, 2]]) [] = Inl inconsistent_hierarchy \<and>
   new_space example_env 0 (Some ''C'') (BasesSeq [1, 2]) None None conflict_state =
     (Inl inconsistent_hierarchy, conflict_state)"
proof -
  have a: "direct_bases_of conflict_state (BasesSeq [1, 2]) = Inr [1, 2]"
    by (simp add: direct_bases_of_def conflict_state_def empty_container_def)
  have m: "map (\<lambda>b. mro (containers conflict_state b)) [1, 2] = [[1], [2, 1]]"
    by (simp add: conflict_state_def empty_container_def)
  have b: "c3_loop (map (\<lambda>b. mro (containers conflict_state b)) [1, 2] @ [[1, 2]]) [] = Inl inconsistent_hierarchy"
    unfolding m by code_simp
  have h: "\<not> has_space (containers conflict_state 0) ''C''"
    by (simp add: has_space_def spaces_def conflict_state_def model_container_def empty_container_def keys_def)
  have v: "is_valid_name example_env ''C''"
    by (simp add: example_env_def is_identifier_def)
  from new_space_inconsistent_bases [OF a b, of example_env 0 "Some ''C''" None None] h v
  have "new_space example_env 0 (Some ''C'') (BasesSeq [1, 2]) None None conflict_state =
     (Inl inconsistent_hierarchy, conflict_state)"
    by (simp add: requested_name_def namer_advanced_def prod_eq_iff)
  with a b show ?thesis by simp
qed

lemma c3_loop_no_bases: "c3_loop [[]] [] = Inr ([], [[]])"
  by (simp add: c3_loop_done)

lemma update_mro_no_bases: "update_mro m s [] = Inr ([s], [])"
  by (simp add: update_mro_def c3_loop_no_bases)

lemma init_members_no_bases:
  "tl (mro (containers st s)) = [] \<Longrightarrow> \<exists>st'. init_members e s st = (Inr (), st')"
  by (simp add: init_members_def Let_def)

lemma new_space_no_bases_succeeds:
  assumes "\<not> has_space (containers st p) nm" and "is_valid_name e nm"
  shows "\<exists>st'. new_space e p (Some nm) BasesNone pf args st = (Inr (next_sid st), st')"
proof -
  let ?c = "\<lparr>is_space = True, name = nm, parent = p, paramfunc = pf,
              param_spaces = [], spacenamer = 0, cellsnamer = 0, spaces_dict = [],
              arguments = (case args of None \<Rightarrow> [] | Some a \<Rightarrow> a),
              direct_bases = [], mro = [next_sid st],
              self_cells = [], self_spaces = [], self_refs = [],
              dynamic_spaces = [], derived_cells = [], derived_spaces = [],
              derived_refs = [], global_refs = [], static_spaces = [], refs = []\<rparr>"
  let ?st2 = "(set_container (next_sid st) ?c st)\<lparr>next_sid := Suc (next_sid st)\<rparr>"
  have "tl (mro (containers ?st2 (next_sid st))) = []" by (simp add: set_container_def)
  from init_members_no_bases [OF this] obtain st3 where
    "init_members e (next_sid st) ?st2 = (Inr (), st3)" by blast
  with assms show ?thesis
    by (simp add: new_space_unfold requested_name_def namer_advanced_def direct_bases_of_def
        update_mro_no_bases Let_def)
qed

text \<open>
  Claim C7, as amended. Creating a child space under a given name fails with
  \<^verbatim>\<open>ValueError("Name already assigned.")\<close> when the parent has a child space of that name
  (\<^verbatim>\<open>parent.has_space(name)\<close>), and with \<^verbatim>\<open>ValueError("Invalid name ...")\<close> when it has none and the
  name is not valid; in both cases the state is unchanged. A valid name that no child space
  of the parent has is accepted, whatever the cells and references of the parent are: without
  bases the construction succeeds.
\<close>

theorem new_space_name_checks:
  "(has_space (containers st p) nm \<longrightarrow>
      new_space e p (Some nm) bases pf args st = (Inl name_already_assigned, st)) \<and>
   (\<not> has_space (containers st p) nm \<and> \<not> is_valid_name e nm \<longrightarrow>
      new_space e p (Some nm) bases pf args st = (Inl (invalid_name nm), st)) \<and>
   (\<not> has_space (containers st p) nm \<and> is_valid_name e nm \<longrightarrow>
      (\<exists>st'. new_space e p (Some nm) BasesNone pf args st = (Inr (next_sid st), st')))"
  using new_space_no_bases_succeeds [of st p nm e pf args]
  by (simp add: new_space_unfold requested_name_def namer_advanced_def Let_def)

theorem new_space_name_checks_witness:
  "has_space (containers cell_state 0) ''bar'' \<and>
   new_space example_env 0 (Some ''bar'') BasesNone None None cell_state =
     (Inl name_already_assigned, cell_state) \<and>
   \<not> has_space (containers cell_state 0) ''1x'' \<and> \<not> is_valid_name example_env ''1x'' \<and>
   new_space example_env 0 (Some ''1x'') BasesNone None None cell_state =
     (Inl (invalid_name ''1x''), cell_state) \<and>
   \<not> has_space (containers cell_state 0) ''baz'' \<and> is_valid_name example_env ''baz'' \<and>
   fst (new_space example_env 0 (Some ''baz'') BasesNone None None cell_state) = Inr 2"
proof -
  have h1: "has_space (containers cell_state 0) ''bar''"
    and h2: "\<not> has_space (containers cell_state 0) ''1x''"
    and h3: "\<not> has_space (containers cell_state 0) ''baz''"
    by (simp_all add: has_space_def spaces_def cell_state_def empty_container_def keys_def
        chain_map_def dict_update_def)
  have v2: "\<not> is_valid_name example_env ''1x''" and v3: "is_valid_name example_env ''baz''"
    by (simp_all add: example_env_def is_identifier_def)
  have n: "next_sid cell_state = 2" by (simp add: cell_state_def)
  note t = new_space_name_checks [of cell_state 0 _ example_env _ None None]
  from t [of "''bar''" BasesNone] h1
  have r1: "new_space example_env 0 (Some ''bar'') BasesNone None None cell_state =
     (Inl name_already_assigned, cell_state)" by simp
  from t [of "''1x''" BasesNone] h2 v2
  have r2: "new_space example_env 0 (Some ''1x'') BasesNone None None cell_state =
     (Inl (invalid_name ''1x''), cell_state)" by simp
  from t [of "''baz''" BasesNone] h3 v3 n
  have r3: "fst (new_space example_env 0 (Some ''baz'') BasesNone None None cell_state) = Inr 2"
    by auto
  from h1 h2 h3 v2 v3 r1 r2 r3 show ?thesis by simp
qed

text \<open>
  Claim C7 as stated fails: \<open>foo\<close> is in the merged namespace of the space \<open>0\<close> (it is the name of
  a cells object), and a child space named \<open>foo\<close> is created all the same.
\<close>

theorem new_space_accepts_name_of_cells:
  "''foo'' \<in> set (keys (namespace (containers cell_state 0))) \<and>
   map_of (namespace (containers cell_state 0)) ''foo'' = Some (VCells 0) \<and>
   fst (new_space example_env 0 (Some ''foo'') BasesNone None None cell_state) = Inr 2"
proof -
  have a: "namespace (containers cell_state 0) = [(''foo'', VCells 0), (''bar'', VSpace 1)]"
    by (simp add: namespace_def cells_def spaces_def cell_state_def empty_container_def
        chain_map_def dict_update_def)
  have h: "\<not> has_space (containers cell_state 0) ''foo''"
    by (simp add: has_space_def spaces_def cell_state_def empty_container_def keys_def
        chain_map_def dict_update_def)
  have v: "is_valid_name example_env ''foo''"
    by (simp add: example_env_def is_identifier_def)
  have n: "next_sid cell_state = 2" by (simp add: cell_state_def)
  from new_space_no_bases_succeeds [OF h v, of None None] n
  have "fst (new_space example_env 0 (Some ''foo'') BasesNone None None cell_state) = Inr 2"
    by auto
  with a show ?thesis by (simp add: keys_def)
qed

subsection \<open>Parametrized child spaces\<close>

lemma system_self_set_container [simp]:
  "system_self (set_container s c st) = system_self st"
  by (simp add: set_container_def)

lemma system_self_append_observers [simp]:
  "system_self (foldl (\<lambda>acc (source, observer). append_observer source observer acc) st xs) =
   system_self st"
  by (induction xs arbitrary: st) (auto simp: append_observer_def)

lemma system_self_namer_advanced [simp]:
  "system_self (namer_advanced e p name_arg st) = system_self st"
  by (simp add: namer_advanced_def split: option.splits)

lemma system_self_register_space [simp]:
  "system_self (register_space p s st) = system_self st"
  by (simp add: register_space_def Let_def)

lemma system_self_init_members:
  assumes "\<forall>s' st'. system_self (snd (init_derived e s' st')) = system_self st'"
  shows "system_self (snd (init_members e s st)) = system_self st"
proof -
  let ?st1 = "foldl (\<lambda>acc (source, observer). append_observer source observer acc)
      (set_container s ((containers st s)\<lparr>self_cells := [], self_spaces := [], dynamic_spaces := [],
         self_refs := [], derived_cells := [], derived_spaces := [], derived_refs := [],
         global_refs := [(''__builtins__'', VBuiltin ''__builtins__''),
                         (''get_self'', VBuiltin ''get_self'')]\<rparr>) st)
      (init_observers s (tl (mro (containers st s))))"
  have 1: "system_self ?st1 = system_self st" by simp
  from assms have 2: "system_self (snd (init_derived e s ?st1)) = system_self ?st1" by blast
  show ?thesis
    using 1 2
    by (cases "init_derived e s ?st1")
       (auto simp: init_members_def Let_def split: sum.splits prod.splits if_splits)
qed

lemma system_self_new_space:
  assumes "\<forall>s' st'. system_self (snd (init_derived e s' st')) = system_self st'"
  shows "system_self (snd (new_space e p name_arg bases pf args st)) = system_self st"
proof -
  have i: "system_self st3 = system_self st2" if "init_members e s st2 = (r, st3)" for s st2 r st3
    using system_self_init_members [OF assms, of s st2] that by simp
  show ?thesis
    unfolding new_space_unfold
    by (auto simp: Let_def i split: sum.splits prod.splits)
qed

lemma init_members_call_formula [simp]:
  "init_members (e\<lparr>call_formula := g\<rparr>) s st = init_members e s st"
  by (simp add: init_members_def Let_def cong: if_cong)

lemma new_space_call_formula [simp]:
  "new_space (e\<lparr>call_formula := g\<rparr>) p name_arg bases pf args st =
   new_space e p name_arg bases pf args st"
proof -
  have 1: "requested_name (e\<lparr>call_formula := g\<rparr>) c name_arg = requested_name e c name_arg" for c
    by (simp add: requested_name_def split: option.splits)
  have 2: "namer_advanced (e\<lparr>call_formula := g\<rparr>) p name_arg st = namer_advanced e p name_arg st"
    by (simp add: namer_advanced_def split: option.splits)
  show ?thesis
    by (simp add: new_space_unfold 1 2 Let_def cong: sum.case_cong)
qed

text \<open>
  Claim C8. Whatever the formula does and however the call ends (by the cache, by an exception
  of the binding, of the formula or of the construction, or by a new space),
  \<^verbatim>\<open>system.self\<close> after \<^verbatim>\<open>get_space\<close> is what it was before the call. This holds for a call made
  while another container \<open>s\<close> is being evaluated: after the nested call \<^verbatim>\<open>system.self\<close> is \<open>s\<close>
  again. And the formula of the container \<open>s\<close> only ever runs in a state in which \<^verbatim>\<open>system.self\<close> is
  \<open>s\<close>: replacing the formula by one that differs from it only in other states changes nothing.
  The assumption is on the code that the sources do not hold: the first computation of the
  derived members does not assign \<^verbatim>\<open>system.self\<close>.
\<close>

theorem get_space_restores_self:
  assumes "\<forall>s' st'. system_self (snd (init_derived e s' st')) = system_self st'"
  shows "system_self (snd (get_space e s args kwargs st)) = system_self st \<and>
         system_self (snd (get_space e d args' kwargs' (st\<lparr>system_self := Some s\<rparr>))) = Some s \<and>
         (\<forall>g. (\<forall>f ns a st'. system_self st' = Some s \<longrightarrow> g f ns a st' = call_formula e f ns a st')
            \<longrightarrow> get_space (e\<lparr>call_formula := g\<rparr>) s args kwargs st = get_space e s args kwargs st)"
proof -
  have restore: "system_self (snd (get_space e s args kwargs st)) = system_self st"
    for s args kwargs st
  proof -
    have n: "system_self st3 = system_self st2"
      if "new_space e p name_arg bases pf a st2 = (r, st3)" for p name_arg bases pf a st2 r st3
      using system_self_new_space [OF assms, of p name_arg bases pf a st2] that by simp
    have p: "system_self (snd (new_param_space e s k a res st2)) = system_self st2" for k a res st2
      by (auto simp: new_param_space_def Let_def n split: sum.splits prod.splits)
    show ?thesis
      unfolding get_space_def
      by (auto simp: Let_def p split: sum.splits prod.splits option.splits)
  qed
  have agree: "get_space (e\<lparr>call_formula := g\<rparr>) s args kwargs st = get_space e s args kwargs st"
    if g: "\<forall>f ns a st'. system_self st' = Some s \<longrightarrow> g f ns a st' = call_formula e f ns a st'"
    for g
  proof -
    have ev: "eval_formula (e\<lparr>call_formula := g\<rparr>) s a (st\<lparr>system_self := Some s\<rparr>) =
          eval_formula e s a (st\<lparr>system_self := Some s\<rparr>)" for a
      using g by (simp add: eval_formula_def split: option.splits)
    have np: "new_param_space (e\<lparr>call_formula := g\<rparr>) s k a res st2 =
              new_param_space e s k a res st2" for k a res st2
      by (simp add: new_param_space_def Let_def cong: if_cong)
    show ?thesis
      by (simp add: get_space_def ev np Let_def
          cong: sum.case_cong option.case_cong prod.case_cong if_cong)
  qed
  from restore [of s args kwargs st] restore [of d args' kwargs' "st\<lparr>system_self := Some s\<rparr>"] agree
  show ?thesis by simp
qed

lemma cache_ok_system_self [simp]: "cache_ok (st\<lparr>system_self := x\<rparr>) s = cache_ok st s"
  by (simp add: cache_ok_def)

lemma cache_ok_append_observer [simp]:
  "cache_ok (append_observer source observer st) s = cache_ok st s"
  by (simp add: append_observer_def cache_ok_def)

lemma cache_ok_append_observers [simp]:
  "cache_ok (foldl (\<lambda>acc (source, observer). append_observer source observer acc) st xs) s =
   cache_ok st s"
  by (induction xs arbitrary: st) (simp_all add: split_beta)

lemma next_sid_append_observer [simp]:
  "next_sid (append_observer source observer st) = next_sid st"
  by (simp add: append_observer_def)

lemma next_sid_append_observers [simp]:
  "next_sid (foldl (\<lambda>acc (source, observer). append_observer source observer acc) st xs) =
   next_sid st"
  by (induction xs arbitrary: st) (simp_all add: split_beta)

lemma cache_ok_set_container_other:
  "n \<noteq> s \<Longrightarrow> cache_ok (set_container n c st) s = cache_ok st s"
  by (simp add: cache_ok_def set_container_def)

lemma cache_ok_set_container_same:
  "param_spaces c = param_spaces (containers st s) \<Longrightarrow>
   cache_ok (set_container s c st) s = cache_ok st s"
  by (simp add: cache_ok_def set_container_def)

lemma next_sid_set_container [simp]: "next_sid (set_container n c st) = next_sid st"
  by (simp add: set_container_def)

lemma cache_ok_next_sid:
  "cache_ok st s \<Longrightarrow> cache_ok (st\<lparr>next_sid := Suc (next_sid st)\<rparr>) s"
  by (auto simp: cache_ok_def list_all_iff)

lemma cache_ok_namer_advanced [simp]:
  "cache_ok (namer_advanced e p name_arg st) s = cache_ok st s"
  by (cases "p = s")
     (auto simp: namer_advanced_def cache_ok_set_container_other cache_ok_set_container_same
       split: option.splits)

lemma cache_ok_register_space:
  "cache_ok (register_space p n st) s = cache_ok st s"
  by (cases "p = s")
     (auto simp: register_space_def Let_def cache_ok_set_container_other
       cache_ok_set_container_same)

lemma next_sid_register_space [simp]: "next_sid (register_space p n st) = next_sid st"
  by (simp add: register_space_def Let_def)

lemma cache_extends_frame:
  "cache_ok st s \<Longrightarrow> cache_ok st' s \<Longrightarrow>
   param_spaces (containers st' s) = param_spaces (containers st s) \<Longrightarrow>
   next_sid st \<le> next_sid st' \<Longrightarrow> cache_extends st st' s"
  by (force simp: cache_extends_def list_all_iff)

lemma cache_extends_refl: "cache_ok st s \<Longrightarrow> cache_extends st st s"
  by (rule cache_extends_frame) simp_all

lemma cache_extends_trans:
  assumes "cache_extends a b s" and "cache_extends b c s"
  shows "cache_extends a c s"
proof -
  from assms have ok: "cache_ok c s" and le: "next_sid a \<le> next_sid b" "next_sid b \<le> next_sid c"
    by (simp_all add: cache_extends_def)
  have "v \<in> snd ` set (param_spaces (containers a s)) \<or> next_sid a \<le> v"
    if "(k, v) \<in> set (param_spaces (containers c s))" for k v
  proof -
    from assms(2) that have "v \<in> snd ` set (param_spaces (containers b s)) \<or> next_sid b \<le> v"
      by (auto simp: cache_extends_def list_all_iff)
    then show ?thesis
    proof
      assume "v \<in> snd ` set (param_spaces (containers b s))"
      then obtain k' where "(k', v) \<in> set (param_spaces (containers b s))" by auto
      with assms(1) show ?thesis by (auto simp: cache_extends_def list_all_iff)
    next
      assume "next_sid b \<le> v"
      with le show ?thesis by simp
    qed
  qed
  with ok le show ?thesis by (auto simp: cache_extends_def list_all_iff)
qed

lemma cache_extends_ok: "cache_extends st st' s \<Longrightarrow> cache_ok st' s"
  by (simp add: cache_extends_def)

lemma param_spaces_set_container_other:
  "n \<noteq> s \<Longrightarrow> param_spaces (containers (set_container n c st) s) = param_spaces (containers st s)"
  by (simp add: set_container_def)

lemma param_spaces_append_observers [simp]:
  "param_spaces (containers (foldl (\<lambda>acc (source, observer). append_observer source observer acc) st xs) s) =
   param_spaces (containers st s)"
  by (induction xs arbitrary: st) (simp_all add: split_beta append_observer_def)

lemma init_members_extends:
  assumes "callbacks_keep_cache e s" and "cache_ok st s" and "n \<noteq> s"
  shows "cache_extends st (snd (init_members e n st)) s"
proof -
  let ?st1 = "foldl (\<lambda>acc (source, observer). append_observer source observer acc)
      (set_container n ((containers st n)\<lparr>self_cells := [], self_spaces := [], dynamic_spaces := [],
         self_refs := [], derived_cells := [], derived_spaces := [], derived_refs := [],
         global_refs := [(''__builtins__'', VBuiltin ''__builtins__''),
                         (''get_self'', VBuiltin ''get_self'')]\<rparr>) st)
      (init_observers n (tl (mro (containers st n))))"
  from assms(2,3) have ok1: "cache_ok ?st1 s" by (simp add: cache_ok_set_container_other)
  have e1: "cache_extends st ?st1 s"
    using assms(2) ok1 assms(3)
    by (intro cache_extends_frame) (simp_all add: param_spaces_set_container_other)
  obtain r st2 where r: "(if tl (mro (containers st n)) = [] then (Inr (), ?st1)
                          else init_derived e n ?st1) = (r, st2)"
    by (cases "if tl (mro (containers st n)) = [] then (Inr (), ?st1) else init_derived e n ?st1")
  have e2: "cache_extends ?st1 st2 s"
  proof (cases "tl (mro (containers st n)) = []")
    case True
    with r have "st2 = ?st1" by simp
    with ok1 show ?thesis by (simp add: cache_extends_refl)
  next
    case False
    with r have "st2 = snd (init_derived e n ?st1)" by simp
    with assms(1) ok1 show ?thesis unfolding callbacks_keep_cache_def by blast
  qed
  have e12: "cache_extends st st2 s" by (rule cache_extends_trans [OF e1 e2])
  show ?thesis
  proof (cases r)
    case (Inl err)
    with r have "init_members e n st = (Inl err, st2)"
      by (simp add: init_members_def Let_def)
    with e12 show ?thesis by simp
  next
    case (Inr u)
    let ?c3 = "(containers st2 n)\<lparr>static_spaces := chain_map [self_spaces (containers st2 n),
                    derived_spaces (containers st2 n)],
                 refs := chain_map [global_refs (containers st2 n), arguments (containers st2 n),
                    self_refs (containers st2 n), derived_refs (containers st2 n)]\<rparr>"
    from Inr r have i: "init_members e n st = (Inr (), set_container n ?c3 st2)"
      by (simp add: init_members_def Let_def)
    from e12 have ok2: "cache_ok st2 s" by (rule cache_extends_ok)
    have "cache_extends st2 (set_container n ?c3 st2) s"
      using ok2 assms(3)
      by (intro cache_extends_frame)
         (simp_all add: cache_ok_set_container_other param_spaces_set_container_other)
    from cache_extends_trans [OF e12 this] i show ?thesis by simp
  qed
qed

lemma new_space_taken: "has_space (containers st p) (requested_name e (containers st p) name_arg) \<Longrightarrow>
  new_space e p name_arg bases pf args st = (Inl name_already_assigned, namer_advanced e p name_arg st)"
  by (simp add: new_space_unfold Let_def)

lemma new_space_invalid: "\<not> has_space (containers st p) (requested_name e (containers st p) name_arg) \<Longrightarrow>
   \<not> is_valid_name e (requested_name e (containers st p) name_arg) \<Longrightarrow>
  new_space e p name_arg bases pf args st = (Inl (invalid_name (requested_name e (containers st p) name_arg)), namer_advanced e p name_arg st)"
  by (simp add: new_space_unfold Let_def)

lemma new_space_bad_bases: "\<not> has_space (containers st p) (requested_name e (containers st p) name_arg) \<Longrightarrow>
   is_valid_name e (requested_name e (containers st p) name_arg) \<Longrightarrow>
   direct_bases_of st bases = Inl err \<Longrightarrow>
  new_space e p name_arg bases pf args st = (Inl err, namer_advanced e p name_arg st)"
  by (simp add: new_space_unfold Let_def)

lemma new_space_no_mro: "\<not> has_space (containers st p) (requested_name e (containers st p) name_arg) \<Longrightarrow>
   is_valid_name e (requested_name e (containers st p) name_arg) \<Longrightarrow>
   direct_bases_of st bases = Inr db \<Longrightarrow>
   update_mro (\<lambda>b. mro (containers st b)) (next_sid st) db = Inl err \<Longrightarrow>
  new_space e p name_arg bases pf args st = (Inl err, namer_advanced e p name_arg st)"
  by (simp add: new_space_unfold Let_def)

lemma new_space_built: "\<not> has_space (containers st p) (requested_name e (containers st p) name_arg) \<Longrightarrow>
   is_valid_name e (requested_name e (containers st p) name_arg) \<Longrightarrow>
   direct_bases_of st bases = Inr db \<Longrightarrow>
   update_mro (\<lambda>b. mro (containers st b)) (next_sid st) db = Inr (mro_list, db1) \<Longrightarrow>
  new_space e p name_arg bases pf args st =
    (case init_members e (next_sid st)
        ((set_container (next_sid st)
            \<lparr>is_space = True, name = requested_name e (containers st p) name_arg,
               parent = p, paramfunc = pf, param_spaces = [], spacenamer = 0, cellsnamer = 0,
               spaces_dict = [], arguments = (case args of None \<Rightarrow> [] | Some a \<Rightarrow> a),
               direct_bases = db1, mro = mro_list, self_cells = [], self_spaces = [],
               self_refs = [], dynamic_spaces = [], derived_cells = [], derived_spaces = [],
               derived_refs = [], global_refs = [], static_spaces = [], refs = []\<rparr>
            (namer_advanced e p name_arg st))\<lparr>next_sid := Suc (next_sid st)\<rparr>) of
       (Inl err, st3) \<Rightarrow> (Inl err, st3)
     | (Inr u, st3) \<Rightarrow> (Inr (next_sid st), register_space p (next_sid st) st3))"
  by (simp add: new_space_unfold Let_def split: prod.splits sum.splits)

lemma new_space_built_outcome:
  assumes nh: "\<not> has_space (containers st p) (requested_name e (containers st p) name_arg)"
    and v: "is_valid_name e (requested_name e (containers st p) name_arg)"
    and b: "direct_bases_of st bases = Inr db"
    and u: "update_mro (\<lambda>b. mro (containers st b)) (next_sid st) db = Inr (mro_list, db1)"
  shows "\<exists>c r st3.
      init_members e (next_sid st)
        ((set_container (next_sid st) c (namer_advanced e p name_arg st))
           \<lparr>next_sid := Suc (next_sid st)\<rparr>) = (r, st3) \<and>
      new_space e p name_arg bases pf args st =
        (case r of Inl err \<Rightarrow> (Inl err, st3)
         | Inr u \<Rightarrow> (Inr (next_sid st), register_space p (next_sid st) st3))"
proof -
  let ?c = "\<lparr>is_space = True, name = requested_name e (containers st p) name_arg,
         parent = p, paramfunc = pf, param_spaces = [], spacenamer = 0, cellsnamer = 0,
         spaces_dict = [], arguments = (case args of None \<Rightarrow> [] | Some a \<Rightarrow> a),
         direct_bases = db1, mro = mro_list, self_cells = [], self_spaces = [],
         self_refs = [], dynamic_spaces = [], derived_cells = [], derived_spaces = [],
         derived_refs = [], global_refs = [], static_spaces = [], refs = []\<rparr>"
  let ?st2 = "(set_container (next_sid st) ?c (namer_advanced e p name_arg st))
                \<lparr>next_sid := Suc (next_sid st)\<rparr>"
  obtain r' st3 where im: "init_members e (next_sid st) ?st2 = (r', st3)"
    by (cases "init_members e (next_sid st) ?st2")
  have n: "new_space e p name_arg bases pf args st =
    (case r' of Inl err \<Rightarrow> (Inl err, st3)
     | Inr u \<Rightarrow> (Inr (next_sid st), register_space p (next_sid st) st3))"
    unfolding new_space_built [OF nh v b u] im by (cases r') simp_all
  show ?thesis
    by (rule exI [of _ ?c], rule exI [of _ r'], rule exI [of _ st3])
       (rule conjI [OF im n])
qed

lemma new_space_outcome:
  "(\<exists>err. new_space e p name_arg bases pf args st = (Inl err, namer_advanced e p name_arg st)) \<or>
   (\<exists>c r st3.
      init_members e (next_sid st)
        ((set_container (next_sid st) c (namer_advanced e p name_arg st))
           \<lparr>next_sid := Suc (next_sid st)\<rparr>) = (r, st3) \<and>
      new_space e p name_arg bases pf args st =
        (case r of Inl err \<Rightarrow> (Inl err, st3)
         | Inr u \<Rightarrow> (Inr (next_sid st), register_space p (next_sid st) st3)))"
proof (cases "has_space (containers st p) (requested_name e (containers st p) name_arg)")
  case True
  from new_space_taken [OF True] show ?thesis by (intro disjI1 exI)
next
  case nh: False
  show ?thesis
  proof (cases "is_valid_name e (requested_name e (containers st p) name_arg)")
    case False
    from new_space_invalid [OF nh False] show ?thesis by (intro disjI1 exI)
  next
    case v: True
    show ?thesis
    proof (cases "direct_bases_of st bases")
      case (Inl err)
      from new_space_bad_bases [OF nh v Inl] show ?thesis by (intro disjI1 exI)
    next
      case b: (Inr db)
      show ?thesis
      proof (cases "update_mro (\<lambda>b. mro (containers st b)) (next_sid st) db")
        case (Inl err)
        from new_space_no_mro [OF nh v b Inl] show ?thesis by (intro disjI1 exI)
      next
        case (Inr res)
        then have "update_mro (\<lambda>b. mro (containers st b)) (next_sid st) db = Inr (fst res, snd res)"
          by simp
        from new_space_built_outcome [OF nh v b this] show ?thesis by (rule disjI2)
      qed
    qed
  qed
qed

lemma param_spaces_namer_advanced [simp]:
  "param_spaces (containers (namer_advanced e p name_arg st) s) = param_spaces (containers st s)"
  by (simp add: namer_advanced_def set_container_def split: option.splits)

lemma param_spaces_register_space [simp]:
  "param_spaces (containers (register_space p n st) s) = param_spaces (containers st s)"
  by (simp add: register_space_def Let_def set_container_def)

lemma new_space_extends:
  assumes cb: "callbacks_keep_cache e s" and ok: "cache_ok st s"
  shows "cache_extends st (snd (new_space e p name_arg bases pf args st)) s \<and>
         (\<forall>n. fst (new_space e p name_arg bases pf args st) = Inr n \<longrightarrow>
            n = next_sid st \<and> n < next_sid (snd (new_space e p name_arg bases pf args st)) \<and>
            n \<notin> snd ` set (param_spaces (containers (snd (new_space e p name_arg bases pf args st)) s)))"
  using new_space_outcome [of e p name_arg bases pf args st]
proof (elim disjE exE conjE)
  fix err
  assume n: "new_space e p name_arg bases pf args st = (Inl err, namer_advanced e p name_arg st)"
  have "cache_extends st (namer_advanced e p name_arg st) s"
    using ok by (intro cache_extends_frame) (simp_all add: namer_advanced_props)
  with n show ?thesis by simp
next
  fix c r st3
  let ?n = "next_sid st"
  let ?st2 = "(set_container ?n c (namer_advanced e p name_arg st))\<lparr>next_sid := Suc ?n\<rparr>"
  assume i: "init_members e ?n ?st2 = (r, st3)"
    and n: "new_space e p name_arg bases pf args st =
        (case r of Inl err \<Rightarrow> (Inl err, st3)
         | Inr u \<Rightarrow> (Inr ?n, register_space p ?n st3))"
  from ok have lt: "s < ?n" by (simp add: cache_ok_def)
  have ok2: "cache_ok ?st2 s"
  proof -
    from lt ok have "cache_ok (set_container ?n c (namer_advanced e p name_arg st)) s"
      by (simp add: cache_ok_set_container_other)
    from cache_ok_next_sid [OF this] show ?thesis by (simp add: namer_advanced_props)
  qed
  have ps2: "param_spaces (containers ?st2 s) = param_spaces (containers st s)"
    using lt by (simp add: set_container_def)
  have e1: "cache_extends st ?st2 s"
    using ok ok2 ps2 by (intro cache_extends_frame) simp_all
  from init_members_extends [OF cb ok2, of ?n] lt i have e2: "cache_extends ?st2 st3 s" by simp
  have e13: "cache_extends st st3 s" by (rule cache_extends_trans [OF e1 e2])
  from e2 have le: "Suc ?n \<le> next_sid st3" by (simp add: cache_extends_def)
  have fresh: "?n \<notin> snd ` set (param_spaces (containers st3 s))"
  proof
    assume "?n \<in> snd ` set (param_spaces (containers st3 s))"
    then obtain k where "(k, ?n) \<in> set (param_spaces (containers st3 s))" by auto
    with e2 have "?n \<in> snd ` set (param_spaces (containers ?st2 s)) \<or> Suc ?n \<le> ?n"
      by (auto simp: cache_extends_def list_all_iff)
    with ps2 obtain k' where "(k', ?n) \<in> set (param_spaces (containers st s))" by auto
    with ok show False by (auto simp: cache_ok_def list_all_iff)
  qed
  show ?thesis
  proof (cases r)
    case (Inl err)
    with n e13 show ?thesis by simp
  next
    case (Inr u)
    from e13 have ok3: "cache_ok st3 s" by (rule cache_extends_ok)
    have "cache_extends st3 (register_space p ?n st3) s"
      using ok3 by (intro cache_extends_frame) (simp_all add: cache_ok_register_space)
    from cache_extends_trans [OF e13 this] Inr n le fresh show ?thesis by simp
  qed
qed

lemma containers_append_observers [simp]:
  "containers (foldl (\<lambda>acc (source, observer). append_observer source observer acc) st xs) =
   containers st"
  by (induction xs arbitrary: st) (simp_all add: split_beta append_observer_def)

lemma init_members_no_bases_result:
  assumes "tl (mro (containers st n)) = []"
  shows "\<exists>st'. init_members e n st = (Inr (), st') \<and>
           next_sid st' = next_sid st \<and> system_self st' = system_self st \<and>
           (\<forall>q. q \<noteq> n \<longrightarrow> containers st' q = containers st q) \<and>
           is_space (containers st' n) = is_space (containers st n) \<and>
           name (containers st' n) = name (containers st n) \<and>
           parent (containers st' n) = parent (containers st n) \<and>
           paramfunc (containers st' n) = paramfunc (containers st n) \<and>
           param_spaces (containers st' n) = param_spaces (containers st n) \<and>
           arguments (containers st' n) = arguments (containers st n) \<and>
           direct_bases (containers st' n) = direct_bases (containers st n) \<and>
           mro (containers st' n) = mro (containers st n) \<and>
           derived_cells (containers st' n) = [] \<and> derived_spaces (containers st' n) = [] \<and>
           derived_refs (containers st' n) = [] \<and> self_cells (containers st' n) = [] \<and>
           self_spaces (containers st' n) = [] \<and> self_refs (containers st' n) = [] \<and>
           dynamic_spaces (containers st' n) = [] \<and> static_spaces (containers st' n) = []"
  using assms
  by (simp add: init_members_def Let_def set_container_def chain_map_def dict_update_def)

lemma keys_alist_update: "set (keys (AList.update k v d)) = insert k (set (keys d))"
  using AList.dom_update [of k v d] by (simp add: keys_def)

lemma keys_dict_update: "set (keys (dict_update d other)) = set (keys d) \<union> set (keys other)"
proof (induction other arbitrary: d)
  case Nil
  show ?case by (simp add: dict_update_def keys_def)
next
  case (Cons x other)
  obtain k v where x: "x = (k, v)" by (cases x)
  have "dict_update d (x # other) = dict_update (AList.update k v d) other"
    by (simp add: dict_update_def x)
  moreover have "keys (x # other) = k # keys other" by (simp add: keys_def x)
  ultimately show ?case
    using Cons.IH [of "AList.update k v d"] by (simp add: keys_alist_update)
qed

lemma keys_chain_map2: "set (keys (chain_map [a, b])) = set (keys a) \<union> set (keys b)"
  by (simp add: chain_map_def keys_dict_update) (simp add: dict_update_def keys_def)

lemma has_space_iff:
  "has_space c nm =
     (if is_space c then nm \<in> set (keys (static_spaces c)) \<or> nm \<in> set (keys (dynamic_spaces c))
      else nm \<in> set (keys (spaces_dict c)))"
  by (simp add: has_space_def spaces_def keys_chain_map2)

lemma register_space_result:
  assumes "p \<noteq> n"
  shows "containers (register_space p n st) n = containers st n"
    and "map_of (registered (containers (register_space p n st) p) (arguments (containers st n) \<noteq> []))
           (name (containers st n)) = Some n"
    and "has_space (containers (register_space p n st) p) (name (containers st n))"
    and "param_spaces (containers (register_space p n st) p) = param_spaces (containers st p)"
    and "paramfunc (containers (register_space p n st) p) = paramfunc (containers st p)"
    and "is_space (containers (register_space p n st) p) = is_space (containers st p)"
    and "spacenamer (containers (register_space p n st) p) = spacenamer (containers st p)"
    and "\<And>x. has_space (containers (register_space p n st) p) x =
           (x = name (containers st n) \<or> has_space (containers st p) x)"
  using assms
  by (auto simp: register_space_def Let_def set_container_def registered_def has_space_iff
      keys_alist_update AList.update_conv')

lemma new_space_no_bases_result:
  assumes nh: "\<not> has_space (containers st p) (requested_name e (containers st p) name_arg)"
    and v: "is_valid_name e (requested_name e (containers st p) name_arg)"
    and p: "p < next_sid st"
  shows "\<exists>st'. new_space e p name_arg BasesNone pf args st = (Inr (next_sid st), st') \<and>
           next_sid st' = Suc (next_sid st) \<and> system_self st' = system_self st \<and>
           is_space (containers st' (next_sid st)) \<and>
           name (containers st' (next_sid st)) = requested_name e (containers st p) name_arg \<and>
           parent (containers st' (next_sid st)) = p \<and>
           paramfunc (containers st' (next_sid st)) = pf \<and>
           arguments (containers st' (next_sid st)) = (case args of None \<Rightarrow> [] | Some a \<Rightarrow> a) \<and>
           direct_bases (containers st' (next_sid st)) = [] \<and>
           mro (containers st' (next_sid st)) = [next_sid st] \<and>
           param_spaces (containers st' (next_sid st)) = [] \<and>
           derived_cells (containers st' (next_sid st)) = [] \<and>
           derived_spaces (containers st' (next_sid st)) = [] \<and>
           derived_refs (containers st' (next_sid st)) = [] \<and>
           map_of (registered (containers st' p) ((case args of None \<Rightarrow> [] | Some a \<Rightarrow> a) \<noteq> []))
             (requested_name e (containers st p) name_arg) = Some (next_sid st) \<and>
           has_space (containers st' p) (requested_name e (containers st p) name_arg) \<and>
           param_spaces (containers st' p) = param_spaces (containers st p) \<and>
           paramfunc (containers st' p) = paramfunc (containers st p) \<and>
           is_space (containers st' p) = is_space (containers st p) \<and>
           spacenamer (containers st' p) = spacenamer (containers (namer_advanced e p name_arg st) p) \<and>
           (\<forall>x. has_space (containers st' p) x =
              (x = requested_name e (containers st p) name_arg \<or> has_space (containers st p) x))"
proof -
  let ?n = "next_sid st"
  let ?nm = "requested_name e (containers st p) name_arg"
  let ?c = "\<lparr>is_space = True, name = ?nm,
         parent = p, paramfunc = pf, param_spaces = [], spacenamer = 0, cellsnamer = 0,
         spaces_dict = [], arguments = (case args of None \<Rightarrow> [] | Some a \<Rightarrow> a),
         direct_bases = [], mro = [?n], self_cells = [], self_spaces = [],
         self_refs = [], dynamic_spaces = [], derived_cells = [], derived_spaces = [],
         derived_refs = [], global_refs = [], static_spaces = [], refs = []\<rparr>"
  let ?st1 = "namer_advanced e p name_arg st"
  let ?st2 = "(set_container ?n ?c ?st1)\<lparr>next_sid := Suc ?n\<rparr>"
  have db: "direct_bases_of st BasesNone = Inr []" by (simp add: direct_bases_of_def)
  have u: "update_mro (\<lambda>b. mro (containers st b)) ?n [] = Inr ([?n], [])"
    by (rule update_mro_no_bases)
  note b = new_space_built [OF nh v db u, of pf args]
  have c2: "containers ?st2 ?n = ?c" by (simp add: set_container_def)
  then have "tl (mro (containers ?st2 ?n)) = []" by simp
  from init_members_no_bases_result [OF this, of e] obtain st3 where
    i: "init_members e ?n ?st2 = (Inr (), st3)"
    and f: "next_sid st3 = next_sid ?st2" "system_self st3 = system_self ?st2"
      "\<forall>q. q \<noteq> ?n \<longrightarrow> containers st3 q = containers ?st2 q"
      "is_space (containers st3 ?n) = is_space (containers ?st2 ?n)"
      "name (containers st3 ?n) = name (containers ?st2 ?n)"
      "parent (containers st3 ?n) = parent (containers ?st2 ?n)"
      "paramfunc (containers st3 ?n) = paramfunc (containers ?st2 ?n)"
      "param_spaces (containers st3 ?n) = param_spaces (containers ?st2 ?n)"
      "arguments (containers st3 ?n) = arguments (containers ?st2 ?n)"
      "direct_bases (containers st3 ?n) = direct_bases (containers ?st2 ?n)"
      "mro (containers st3 ?n) = mro (containers ?st2 ?n)"
      "derived_cells (containers st3 ?n) = []" "derived_spaces (containers st3 ?n) = []"
      "derived_refs (containers st3 ?n) = []"
    by blast
  from p have pn: "p \<noteq> ?n" by simp
  from f(3) pn have cp: "containers st3 p = containers ?st1 p" by (simp add: set_container_def)
  have n: "new_space e p name_arg BasesNone pf args st = (Inr ?n, register_space p ?n st3)"
    unfolding b i by simp
  have ps: "param_spaces (containers ?st1 p) = param_spaces (containers st p)" by simp
  have pf': "paramfunc (containers ?st1 p) = paramfunc (containers st p)"
    by (simp add: namer_advanced_def set_container_def split: option.splits)
  note r = register_space_result [OF pn, of st3]
  show ?thesis
    apply (rule exI [of _ "register_space p ?n st3"])
    using n f c2 r cp ps pf'
    apply (simp add: namer_advanced_props)
    done
qed

lemma get_space_bind_error:
  "bind_args e (paramfunc (containers st s)) args kwargs = Inl err \<Longrightarrow>
   get_space e s args kwargs st = (Inl err, st)"
  by (simp add: get_space_def)

lemma get_space_hit:
  "bind_args e (paramfunc (containers st s)) args kwargs = Inr (k, a) \<Longrightarrow>
   map_of (param_spaces (containers st s)) k = Some cached \<Longrightarrow>
   get_space e s args kwargs st = (Inr cached, st)"
  by (simp add: get_space_def)

lemma get_space_miss:
  "bind_args e (paramfunc (containers st s)) args kwargs = Inr (k, a) \<Longrightarrow>
   map_of (param_spaces (containers st s)) k = None \<Longrightarrow>
   eval_formula e s a (st\<lparr>system_self := Some s\<rparr>) = (r, st1) \<Longrightarrow>
   get_space e s args kwargs st =
     (case r of
        Inl err \<Rightarrow> (Inl err, st1\<lparr>system_self := system_self st\<rparr>)
      | Inr res \<Rightarrow> new_param_space e s k a res (st1\<lparr>system_self := system_self st\<rparr>))"
  by (simp add: get_space_def Let_def)

lemma new_param_space_none:
  "new_param_space e s k a None st = new_param_space e s k a (Some no_space_args) st"
  by (simp add: new_param_space_def)

lemma get_space_none_result:
  assumes bind: "bind_args e (paramfunc (containers st s)) args kwargs = Inr (k, a)"
    and miss: "map_of (param_spaces (containers st s)) k = None"
    and ev: "eval_formula e s a (st\<lparr>system_self := Some s\<rparr>) = (Inr None, st1)"
    and nh: "\<not> has_space (containers st1 s) (requested_name e (containers st1 s) None)"
    and v: "is_valid_name e (requested_name e (containers st1 s) None)"
    and s: "s < next_sid st1"
  shows "\<exists>st'. get_space e s args kwargs st = (Inr (next_sid st1), st') \<and>
           map_of (param_spaces (containers st' s)) k = Some (next_sid st1) \<and>
           system_self st' = system_self st \<and>
           is_space (containers st' (next_sid st1)) \<and>
           name (containers st' (next_sid st1)) = requested_name e (containers st1 s) None \<and>
           parent (containers st' (next_sid st1)) = s \<and>
           arguments (containers st' (next_sid st1)) = a \<and>
           paramfunc (containers st' (next_sid st1)) = None \<and>
           direct_bases (containers st' (next_sid st1)) = [] \<and>
           mro (containers st' (next_sid st1)) = [next_sid st1] \<and>
           map_of (registered (containers st' s) (a \<noteq> []))
             (requested_name e (containers st1 s) None) = Some (next_sid st1) \<and>
           param_spaces (containers st' s) =
             AList.update k (next_sid st1) (param_spaces (containers st1 s)) \<and>
           paramfunc (containers st' s) = paramfunc (containers st1 s) \<and>
           is_space (containers st' s) = is_space (containers st1 s) \<and>
           next_sid st' = Suc (next_sid st1) \<and>
           spacenamer (containers st' s) =
             snd (get_next e (spacenamer (containers st1 s)) (keys (spaces (containers st1 s)))) \<and>
           (\<forall>x. has_space (containers st' s) x =
              (x = requested_name e (containers st1 s) None \<or> has_space (containers st1 s) x))"
proof -
  let ?st2 = "st1\<lparr>system_self := system_self st\<rparr>"
  let ?n = "next_sid st1"
  let ?nm = "requested_name e (containers st1 s) None"
  have g: "get_space e s args kwargs st = new_param_space e s k a None ?st2"
    using get_space_miss [OF bind miss ev] by simp
  have c: "containers ?st2 = containers st1" "next_sid ?st2 = next_sid st1" by simp_all
  from nh v s have
    "\<not> has_space (containers ?st2 s) (requested_name e (containers ?st2 s) None)"
    "is_valid_name e (requested_name e (containers ?st2 s) None)" "s < next_sid ?st2"
    by simp_all
  from new_space_no_bases_result [OF this, of None "Some a"] obtain st3 where
    n: "new_space e s None BasesNone None (Some a) ?st2 = (Inr ?n, st3)"
    and f: "system_self st3 = system_self ?st2"
      "is_space (containers st3 ?n)" "name (containers st3 ?n) = ?nm"
      "parent (containers st3 ?n) = s" "paramfunc (containers st3 ?n) = None"
      "arguments (containers st3 ?n) = a" "direct_bases (containers st3 ?n) = []"
      "mro (containers st3 ?n) = [?n]"
      "map_of (registered (containers st3 s) (a \<noteq> [])) ?nm = Some ?n"
      "param_spaces (containers st3 s) = param_spaces (containers ?st2 s)"
      "paramfunc (containers st3 s) = paramfunc (containers ?st2 s)"
      "is_space (containers st3 s) = is_space (containers ?st2 s)"
      "next_sid st3 = Suc (next_sid ?st2)"
      "spacenamer (containers st3 s) = spacenamer (containers (namer_advanced e s None ?st2) s)"
      "\<forall>x. has_space (containers st3 s) x =
              (x = requested_name e (containers ?st2 s) None \<or> has_space (containers ?st2 s) x)"
    by (auto simp: c)
  let ?st' = "set_container s ((containers st3 s)\<lparr>param_spaces :=
                 AList.update k ?n (param_spaces (containers st3 s))\<rparr>) st3"
  have np: "new_param_space e s k a None ?st2 = (Inr ?n, ?st')"
    by (simp add: new_param_space_def no_space_args_def n)
  from s have sn: "s \<noteq> ?n" by simp
  have r: "registered ((containers st3 s)\<lparr>param_spaces := x\<rparr>) d = registered (containers st3 s) d"
    for x d by (simp add: registered_def)
  have h: "has_space ((containers st3 s)\<lparr>param_spaces := x\<rparr>) y = has_space (containers st3 s) y"
    for x y by (simp add: has_space_def spaces_def)
  have sn': "spacenamer (containers (namer_advanced e s None ?st2) s) =
      snd (get_next e (spacenamer (containers st1 s)) (keys (spaces (containers st1 s))))"
    by (simp add: namer_advanced_def set_container_def)
  show ?thesis
    apply (rule exI [of _ ?st'])
    using g np f sn
    apply (simp add: set_container_def AList.update_conv' r h sn')
    done
qed

text \<open>
  Claim C10. Let \<^verbatim>\<open>get_space\<close> miss the cache and the formula return \<^verbatim>\<open>None\<close>, and let the name the
  namer supplies be valid and not the name of a child space (the container \<open>s\<close> being an
  existing object). Then \<^verbatim>\<open>get_space\<close> does not fail. It returns a new space, which is cached
  under the argument values; the space has the supplied name, the parent \<open>s\<close>, the call's
  arguments, no parameter function and no bases, and it is registered in the parent (among
  the dynamic spaces when there are arguments). It is the result that a formula returning the
  mapping without entries gives.
\<close>

theorem get_space_formula_returns_none:
  assumes bind: "bind_args e (paramfunc (containers st s)) args kwargs = Inr (k, a)"
    and miss: "map_of (param_spaces (containers st s)) k = None"
    and ev: "eval_formula e s a (st\<lparr>system_self := Some s\<rparr>) = (Inr None, st1)"
    and nh: "\<not> has_space (containers st1 s) (requested_name e (containers st1 s) None)"
    and v: "is_valid_name e (requested_name e (containers st1 s) None)"
    and s: "s < next_sid st1"
  shows "\<exists>st'. get_space e s args kwargs st = (Inr (next_sid st1), st') \<and>
           map_of (param_spaces (containers st' s)) k = Some (next_sid st1) \<and>
           system_self st' = system_self st \<and>
           is_space (containers st' (next_sid st1)) \<and>
           name (containers st' (next_sid st1)) = requested_name e (containers st1 s) None \<and>
           parent (containers st' (next_sid st1)) = s \<and>
           arguments (containers st' (next_sid st1)) = a \<and>
           paramfunc (containers st' (next_sid st1)) = None \<and>
           direct_bases (containers st' (next_sid st1)) = [] \<and>
           mro (containers st' (next_sid st1)) = [next_sid st1] \<and>
           map_of (registered (containers st' s) (a \<noteq> []))
             (requested_name e (containers st1 s) None) = Some (next_sid st1) \<and>
           is_space (containers st' s) = is_space (containers st1 s) \<and>
           get_space e s args kwargs st =
             new_param_space e s k a (Some no_space_args) (st1\<lparr>system_self := system_self st\<rparr>)"
proof -
  have "get_space e s args kwargs st =
      new_param_space e s k a (Some no_space_args) (st1\<lparr>system_self := system_self st\<rparr>)"
    using get_space_miss [OF bind miss ev] by (simp add: new_param_space_none)
  with get_space_none_result [OF assms] show ?thesis by blast
qed

lemma set_alist_update: "set (AList.update k v d) \<subseteq> insert (k, v) (set d)"
  by (induction d) auto

lemma distinct_snd_alist_update:
  "distinct (map snd d) \<Longrightarrow> v \<notin> snd ` set d \<Longrightarrow> distinct (map snd (AList.update k v d))"
proof (induction d)
  case Nil
  show ?case by simp
next
  case (Cons x d)
  obtain k' v' where x: "x = (k', v')" by (cases x)
  show ?case
  proof (cases "k' = k")
    case True
    with Cons.prems x show ?thesis by (auto simp: image_iff)
  next
    case False
    from Cons.prems have d: "distinct (map snd d)" "v \<notin> snd ` set d" by auto
    from Cons.prems x have nv: "v' \<noteq> v" "v' \<notin> snd ` set d" by (auto simp: image_iff)
    have "v' \<notin> snd ` set (AList.update k v d)"
      using set_alist_update [of k v d] nv by (auto simp: image_iff)
    with Cons.IH [OF d] False x show ?thesis by simp
  qed
qed

lemma eval_formula_extends:
  assumes "callbacks_keep_cache e s" and "cache_ok st s"
  shows "cache_extends st (snd (eval_formula e s' a st)) s"
proof (cases "paramfunc (containers st s')")
  case None
  with assms(2) show ?thesis by (simp add: eval_formula_def cache_extends_refl)
next
  case (Some f)
  with assms show ?thesis unfolding callbacks_keep_cache_def eval_formula_def by simp
qed

lemma new_param_space_extends:
  assumes cb: "callbacks_keep_cache e s" and ok: "cache_ok st s"
  shows "cache_extends st (snd (new_param_space e s k a res st)) s \<and>
         (\<forall>n. fst (new_param_space e s k a res st) = Inr n \<longrightarrow>
            n = next_sid st \<and>
            map_of (param_spaces (containers (snd (new_param_space e s k a res st)) s)) k = Some n)"
proof -
  let ?sa = "case res of None \<Rightarrow> no_space_args | Some m \<Rightarrow> m"
  show ?thesis
  proof (cases "sa_other ?sa \<noteq> []")
    case True
    then have "new_param_space e s k a res st = (Inl unexpected_keyword, st)"
      by (simp add: new_param_space_def Let_def)
    with ok show ?thesis by (simp add: cache_extends_refl)
  next
    case False
    obtain r st1 where n: "new_space e s (sa_name ?sa) (sa_bases ?sa) (sa_paramfunc ?sa) (Some a) st = (r, st1)"
      by (cases "new_space e s (sa_name ?sa) (sa_bases ?sa) (sa_paramfunc ?sa) (Some a) st")
    from new_space_extends [OF cb ok, of s "sa_name ?sa" "sa_bases ?sa" "sa_paramfunc ?sa" "Some a"] n
    have e1: "cache_extends st st1 s"
      and fr: "\<forall>n. r = Inr n \<longrightarrow> n = next_sid st \<and> n < next_sid st1 \<and>
                  n \<notin> snd ` set (param_spaces (containers st1 s))"
      by simp_all
    show ?thesis
    proof (cases r)
      case (Inl err)
      with False n have "new_param_space e s k a res st = (Inl err, st1)"
        by (simp add: new_param_space_def Let_def)
      with e1 show ?thesis by simp
    next
      case (Inr v)
      let ?d = "param_spaces (containers st1 s)"
      let ?st' = "set_container s ((containers st1 s)\<lparr>param_spaces := AList.update k v ?d\<rparr>) st1"
      from False n Inr have np: "new_param_space e s k a res st = (Inr v, ?st')"
        by (simp add: new_param_space_def Let_def)
      from fr Inr have v: "v = next_sid st" "v < next_sid st1" "v \<notin> snd ` set ?d" by blast+
      from e1 have ok1: "cache_ok st1 s" and le: "next_sid st \<le> next_sid st1"
        and old: "list_all (\<lambda>(k, x). x \<in> set (map snd (param_spaces (containers st s))) \<or> next_sid st \<le> x) ?d"
        by (simp_all add: cache_extends_def)
      have ps: "param_spaces (containers ?st' s) = AList.update k v ?d"
        by (simp add: set_container_def)
      have sub: "set (AList.update k v ?d) \<subseteq> insert (k, v) (set ?d)" by (rule set_alist_update)
      have ok': "cache_ok ?st' s"
        unfolding cache_ok_def ps
      proof (intro conjI)
        from ok1 show "s < next_sid ?st'" by (simp add: cache_ok_def)
        from ok1 v(3) show "distinct (map snd (AList.update k v ?d))"
          by (intro distinct_snd_alist_update) (simp_all add: cache_ok_def)
        from ok1 v(2) sub show "list_all (\<lambda>(k, v). v < next_sid ?st') (AList.update k v ?d)"
          by (auto simp: cache_ok_def list_all_iff)
      qed
      have ext: "cache_extends st ?st' s"
        unfolding cache_extends_def ps
      proof (intro conjI)
        show "cache_ok ?st' s" by (rule ok')
        from le show "next_sid st \<le> next_sid ?st'" by simp
        from old v(1) sub
        show "list_all (\<lambda>(k, x). x \<in> set (map snd (param_spaces (containers st s))) \<or> next_sid st \<le> x)
                (AList.update k v ?d)"
          by (auto simp: list_all_iff)
      qed
      have "map_of (param_spaces (containers ?st' s)) k = Some v"
        by (simp add: ps AList.update_conv')
      with np ext v(1) show ?thesis by simp
    qed
  qed
qed

lemma get_space_extends:
  assumes cb: "callbacks_keep_cache e s" and ok: "cache_ok st s"
    and bind: "bind_args e (paramfunc (containers st s)) args kwargs = Inr (k, a)"
  shows "cache_extends st (snd (get_space e s args kwargs st)) s \<and>
         (\<forall>v. fst (get_space e s args kwargs st) = Inr v \<longrightarrow>
            map_of (param_spaces (containers (snd (get_space e s args kwargs st)) s)) k = Some v \<and>
            (map_of (param_spaces (containers st s)) k = None \<longrightarrow> next_sid st \<le> v))"
proof (cases "map_of (param_spaces (containers st s)) k")
  case (Some cached)
  from get_space_hit [OF bind Some] ok Some show ?thesis by (simp add: cache_extends_refl)
next
  case None
  let ?st0 = "st\<lparr>system_self := Some s\<rparr>"
  obtain r st1 where ev: "eval_formula e s a ?st0 = (r, st1)"
    by (cases "eval_formula e s a ?st0")
  let ?st2 = "st1\<lparr>system_self := system_self st\<rparr>"
  from ok have ok0: "cache_ok ?st0 s" by simp
  have e0: "cache_extends st ?st0 s" using ok ok0 by (intro cache_extends_frame) simp_all
  from eval_formula_extends [OF cb ok0, of s a] ev have e1: "cache_extends ?st0 st1 s" by simp
  then have ok1: "cache_ok st1 s" by (rule cache_extends_ok)
  then have ok2: "cache_ok ?st2 s" by simp
  have e2: "cache_extends st1 ?st2 s" using ok1 ok2 by (intro cache_extends_frame) simp_all
  have e02: "cache_extends st ?st2 s"
    by (rule cache_extends_trans [OF cache_extends_trans [OF e0 e1] e2])
  then have le: "next_sid st \<le> next_sid ?st2" by (simp add: cache_extends_def)
  note g = get_space_miss [OF bind None ev]
  show ?thesis
  proof (cases r)
    case (Inl err)
    with g e02 show ?thesis by simp
  next
    case (Inr res)
    with g have g': "get_space e s args kwargs st = new_param_space e s k a res ?st2" by simp
    from new_param_space_extends [OF cb ok2, of k a res]
    have e3: "cache_extends ?st2 (snd (new_param_space e s k a res ?st2)) s"
      and v: "\<forall>n. fst (new_param_space e s k a res ?st2) = Inr n \<longrightarrow>
            n = next_sid ?st2 \<and>
            map_of (param_spaces (containers (snd (new_param_space e s k a res ?st2)) s)) k = Some n"
      by blast+
    from cache_extends_trans [OF e02 e3] v le show ?thesis unfolding g' by auto
  qed
qed

lemma new_param_space_cached:
  "new_param_space e s k a res st = (Inr v, st') \<Longrightarrow>
   map_of (param_spaces (containers st' s)) k = Some v"
  by (auto simp: new_param_space_def Let_def set_container_def AList.update_conv'
      split: if_splits prod.splits sum.splits)

lemma get_space_cached:
  assumes "get_space e s args kwargs st = (Inr child, st1)"
    and bind: "bind_args e (paramfunc (containers st s)) args kwargs = Inr (k, a)"
  shows "map_of (param_spaces (containers st1 s)) k = Some child"
proof (cases "map_of (param_spaces (containers st s)) k")
  case (Some cached)
  from get_space_hit [OF bind Some] assms(1) Some show ?thesis by simp
next
  case None
  obtain r st0 where ev: "eval_formula e s a (st\<lparr>system_self := Some s\<rparr>) = (r, st0)"
    by (cases "eval_formula e s a (st\<lparr>system_self := Some s\<rparr>)")
  show ?thesis
  proof (cases r)
    case (Inl err)
    with get_space_miss [OF bind None ev] assms(1) show ?thesis by simp
  next
    case (Inr res)
    with get_space_miss [OF bind None ev] assms(1)
    have "new_param_space e s k a res (st0\<lparr>system_self := system_self st\<rparr>) = (Inr child, st1)"
      by simp
    then show ?thesis by (rule new_param_space_cached)
  qed
qed

lemma distinct_snd_same_key:
  "distinct (map snd d) \<Longrightarrow> (k1, v) \<in> set d \<Longrightarrow> (k2, v) \<in> set d \<Longrightarrow> k1 = k2"
proof -
  assume "distinct (map snd d)" and 1: "(k1, v) \<in> set d" and 2: "(k2, v) \<in> set d"
  then have "inj_on snd (set d)" by (simp add: distinct_map)
  from inj_onD [OF this _ 1 2] show "k1 = k2" by simp
qed

text \<open>
  Claim C2. Let a first call of \<^verbatim>\<open>get_space\<close> return the space \<open>child1\<close> for argument values \<open>k1\<close>.
  A second call whose arguments are bound to the same values returns \<open>child1\<close> and leaves the
  state as it is, whatever the parameter function is at that time: the formula is not
  evaluated again. A second call whose arguments are bound to other values, if it returns,
  returns another space, provided the cache was in order before the first call. Argument
  values are compared by equality of values: the key of the cache is the tuple
  \<^verbatim>\<open>argvalues\<close>, and the model has no identity of tuples that could differ from it.
\<close>

theorem get_space_memoizes:
  assumes first: "get_space e s args1 kwargs1 st = (Inr child1, st1)"
    and bind1: "bind_args e (paramfunc (containers st s)) args1 kwargs1 = Inr (k1, a1)"
    and bind2: "bind_args e (paramfunc (containers st1 s)) args2 kwargs2 = Inr (k2, a2)"
  shows "(k2 = k1 \<longrightarrow>
           (\<forall>g. get_space (e\<lparr>call_formula := g\<rparr>) s args2 kwargs2 st1 = (Inr child1, st1))) \<and>
         (k2 \<noteq> k1 \<longrightarrow> cache_ok st s \<longrightarrow> callbacks_keep_cache e s \<longrightarrow>
           (\<forall>child2 st2. get_space e s args2 kwargs2 st1 = (Inr child2, st2) \<longrightarrow> child2 \<noteq> child1))"
proof (intro conjI impI allI)
  fix g
  assume "k2 = k1"
  with get_space_cached [OF first bind1]
  have c: "map_of (param_spaces (containers st1 s)) k2 = Some child1" by simp
  from bind2 have "bind_args (e\<lparr>call_formula := g\<rparr>) (paramfunc (containers st1 s)) args2 kwargs2 = Inr (k2, a2)"
    by simp
  from get_space_hit [OF this c]
  show "get_space (e\<lparr>call_formula := g\<rparr>) s args2 kwargs2 st1 = (Inr child1, st1)" .
next
  fix child2 st2
  assume ne: "k2 \<noteq> k1" and ok: "cache_ok st s" and cb: "callbacks_keep_cache e s"
    and second: "get_space e s args2 kwargs2 st1 = (Inr child2, st2)"
  from get_space_extends [OF cb ok bind1] first
  have ok1: "cache_ok st1 s" and c1: "map_of (param_spaces (containers st1 s)) k1 = Some child1"
    by (simp_all add: cache_extends_def)
  from c1 have in1: "(k1, child1) \<in> set (param_spaces (containers st1 s))" by (rule map_of_SomeD)
  from get_space_extends [OF cb ok1 bind2] second
  have fresh: "map_of (param_spaces (containers st1 s)) k2 = None \<longrightarrow> next_sid st1 \<le> child2"
    by simp
  show "child2 \<noteq> child1"
  proof (cases "map_of (param_spaces (containers st1 s)) k2")
    case None
    with fresh have "next_sid st1 \<le> child2" by simp
    moreover from ok1 in1 have "child1 < next_sid st1" by (auto simp: cache_ok_def list_all_iff)
    ultimately show ?thesis by simp
  next
    case (Some cached)
    from get_space_hit [OF bind2 Some] second have "child2 = cached" by simp
    with Some have "(k2, child2) \<in> set (param_spaces (containers st1 s))" by (simp add: map_of_SomeD)
    with ok1 in1 ne show ?thesis by (auto simp: cache_ok_def dest: distinct_snd_same_key)
  qed
qed

lemma param_state_facts:
  "bind_args example_env (paramfunc (containers param_state 0)) [VInt x] [] =
     Inr ([VInt x], [(''a'', VInt x)])"
  "map_of (param_spaces (containers param_state 0)) k = None"
  "eval_formula example_env 0 a (param_state\<lparr>system_self := Some 0\<rparr>) =
     (Inr None, param_state\<lparr>system_self := Some 0\<rparr>)"
  "requested_name example_env (containers (param_state\<lparr>system_self := Some 0\<rparr>) 0) None = ''Space1''"
  "\<not> has_space (containers (param_state\<lparr>system_self := Some 0\<rparr>) 0) nm"
  "is_valid_name example_env ''Space1''"
  "0 < next_sid (param_state\<lparr>system_self := Some 0\<rparr>)"
  "next_sid (param_state\<lparr>system_self := Some 0\<rparr>) = 2"
  "system_self param_state = Some 1"
  "requested_name example_env (containers param_state 0) None = ''Space1''"
  by (simp_all add: example_env_def param_state_def empty_container_def eval_formula_def
      requested_name_def has_space_iff keys_def is_identifier_def nat_str.simps)

theorem get_space_formula_returns_none_witness:
  "bind_args example_env (paramfunc (containers param_state 0)) [VInt 1] [] =
     Inr ([VInt 1], [(''a'', VInt 1)]) \<and>
   map_of (param_spaces (containers param_state 0)) [VInt 1] = None \<and>
   eval_formula example_env 0 [(''a'', VInt 1)] (param_state\<lparr>system_self := Some 0\<rparr>) =
     (Inr None, param_state\<lparr>system_self := Some 0\<rparr>) \<and>
   (\<exists>st'. get_space example_env 0 [VInt 1] [] param_state = (Inr 2, st') \<and>
      map_of (param_spaces (containers st' 0)) [VInt 1] = Some 2 \<and>
      system_self st' = Some 1 \<and>
      name (containers st' 2) = ''Space1'' \<and> parent (containers st' 2) = 0 \<and>
      arguments (containers st' 2) = [(''a'', VInt 1)] \<and>
      paramfunc (containers st' 2) = None \<and> mro (containers st' 2) = [2] \<and>
      map_of (dynamic_spaces (containers st' 0)) ''Space1'' = Some 2)"
proof -
  note f = param_state_facts
  have sp: "is_space (containers (param_state\<lparr>system_self := Some 0\<rparr>) 0)"
    by (simp add: param_state_def empty_container_def)
  have nh: "\<not> has_space (containers (param_state\<lparr>system_self := Some 0\<rparr>) 0)
      (requested_name example_env (containers (param_state\<lparr>system_self := Some 0\<rparr>) 0) None)"
    by (rule f(5))
  have v: "is_valid_name example_env
      (requested_name example_env (containers (param_state\<lparr>system_self := Some 0\<rparr>) 0) None)"
    unfolding f(4) by (rule f(6))
  note t = get_space_formula_returns_none
    [OF f(1) [of 1] f(2) [of "[VInt 1]"] f(3) [of "[(''a'', VInt 1)]"] nh v f(7)]
  have ex: "\<exists>st'. get_space example_env 0 [VInt 1] [] param_state = (Inr 2, st') \<and>
      map_of (param_spaces (containers st' 0)) [VInt 1] = Some 2 \<and>
      system_self st' = Some 1 \<and>
      name (containers st' 2) = ''Space1'' \<and> parent (containers st' 2) = 0 \<and>
      arguments (containers st' 2) = [(''a'', VInt 1)] \<and>
      paramfunc (containers st' 2) = None \<and> mro (containers st' 2) = [2] \<and>
      map_of (dynamic_spaces (containers st' 0)) ''Space1'' = Some 2"
    using t sp
    apply (elim exE conjE)
    subgoal for st'
      apply (rule exI [of _ st'])
      apply (simp add: f(4,8,9,10) registered_def)
      done
    done
  from f(1) [of 1] f(2) [of "[VInt 1]"] f(3) [of "[(''a'', VInt 1)]"] ex show ?thesis
    by (intro conjI)
qed

lemma raising_env_facts:
  "bind_args raising_env (paramfunc (containers param_state 0)) [VInt x] [] =
     Inr ([VInt x], [(''a'', VInt x)])"
  "eval_formula raising_env 0 a (param_state\<lparr>system_self := Some 0\<rparr>) =
     (Inl (FormulaError ''boom''), param_state\<lparr>system_self := None\<rparr>)"
  "init_derived raising_env = init_derived example_env"
  by (simp_all add: raising_env_def example_env_def param_state_def empty_container_def
      eval_formula_def)

lemma example_env_frame:
  "\<forall>s' st'. system_self (snd (init_derived example_env s' st')) = system_self st'"
  by (simp add: example_env_def)

theorem get_space_restores_self_witness:
  "(\<forall>s' st'. system_self (snd (init_derived raising_env s' st')) = system_self st') \<and>
   (\<forall>s' st'. system_self (snd (init_derived example_env s' st')) = system_self st') \<and>
   system_self param_state = Some 1 \<and>
   fst (get_space raising_env 0 [VInt 1] [] param_state) = Inl (FormulaError ''boom'') \<and>
   system_self (snd (get_space raising_env 0 [VInt 1] [] param_state)) = Some 1 \<and>
   fst (get_space example_env 0 [VInt 1] [] param_state) = Inr 2 \<and>
   system_self (snd (get_space example_env 0 [VInt 1] [] param_state)) = Some 1"
proof -
  note f = param_state_facts
  have f1: "\<forall>s' st'. system_self (snd (init_derived raising_env s' st')) = system_self st'"
    using example_env_frame by (simp add: raising_env_facts(3))
  have r1: "fst (get_space raising_env 0 [VInt 1] [] param_state) = Inl (FormulaError ''boom'')"
    using get_space_miss [OF raising_env_facts(1) [of 1] f(2) [of "[VInt 1]"] raising_env_facts(2)]
    by simp
  have nh: "\<not> has_space (containers (param_state\<lparr>system_self := Some 0\<rparr>) 0)
      (requested_name example_env (containers (param_state\<lparr>system_self := Some 0\<rparr>) 0) None)"
    by (rule f(5))
  have v: "is_valid_name example_env
      (requested_name example_env (containers (param_state\<lparr>system_self := Some 0\<rparr>) 0) None)"
    unfolding f(4) by (rule f(6))
  have r2: "fst (get_space example_env 0 [VInt 1] [] param_state) = Inr 2"
    using get_space_none_result
      [OF f(1) [of 1] f(2) [of "[VInt 1]"] f(3) [of "[(''a'', VInt 1)]"] nh v f(7)]
    by (auto simp: f(8))
  from get_space_restores_self [OF f1, of 0 "[VInt 1]" "[]" param_state]
  have t1: "system_self (snd (get_space raising_env 0 [VInt 1] [] param_state)) = Some 1"
    by (simp add: f(9))
  from get_space_restores_self [OF example_env_frame, of 0 "[VInt 1]" "[]" param_state]
  have t2: "system_self (snd (get_space example_env 0 [VInt 1] [] param_state)) = Some 1"
    by (simp add: f(9))
  from f1 example_env_frame f(9) r1 t1 r2 t2 show ?thesis by (intro conjI)
qed

lemma example_env_callbacks: "callbacks_keep_cache example_env s"
  by (simp add: callbacks_keep_cache_def example_env_def cache_extends_refl)

theorem get_space_memoizes_witness:
  "cache_ok param_state 0 \<and> callbacks_keep_cache example_env 0 \<and>
   (\<exists>st1 st2.
      get_space example_env 0 [VInt 1] [] param_state = (Inr 2, st1) \<and>
      get_space (example_env\<lparr>call_formula := call_formula raising_env\<rparr>) 0 [VInt 1] [] st1 =
        (Inr 2, st1) \<and>
      get_space example_env 0 [VInt 2] [] st1 = (Inr 3, st2) \<and> (3::nat) \<noteq> 2)"
proof -
  note f = param_state_facts
  have ok: "cache_ok param_state 0"
    by (simp add: cache_ok_def param_state_def empty_container_def)
  have nh: "\<not> has_space (containers (param_state\<lparr>system_self := Some 0\<rparr>) 0)
      (requested_name example_env (containers (param_state\<lparr>system_self := Some 0\<rparr>) 0) None)"
    by (rule f(5))
  have v: "is_valid_name example_env
      (requested_name example_env (containers (param_state\<lparr>system_self := Some 0\<rparr>) 0) None)"
    unfolding f(4) by (rule f(6))
  have g: "snd (get_next example_env (spacenamer (containers param_state 0))
                 (keys (spaces (containers param_state 0)))) = 1"
    "param_spaces (containers param_state 0) = []"
    "paramfunc (containers param_state 0) = Some \<lparr>f_id = 7, f_params = [''a'']\<rparr>"
    "\<And>x. \<not> has_space (containers param_state 0) x"
    by (simp_all add: param_state_def empty_container_def example_env_def has_space_iff keys_def)
  have "\<exists>st1. get_space example_env 0 [VInt 1] [] param_state = (Inr 2, st1) \<and>
      param_spaces (containers st1 0) = [([VInt 1], 2)] \<and>
      paramfunc (containers st1 0) = Some \<lparr>f_id = 7, f_params = [''a'']\<rparr> \<and>
      next_sid st1 = 3 \<and> spacenamer (containers st1 0) = 1 \<and>
      (\<forall>x. has_space (containers st1 0) x = (x = ''Space1''))"
    using get_space_none_result
      [OF f(1) [of 1] f(2) [of "[VInt 1]"] f(3) [of "[(''a'', VInt 1)]"] nh v f(7)]
    apply (elim exE conjE)
    subgoal for st'
      apply (rule exI [of _ st'])
      apply (simp add: f(4,5,8,10) g)
      done
    done
  then obtain st1 where first: "get_space example_env 0 [VInt 1] [] param_state = (Inr 2, st1)"
    and c1: "param_spaces (containers st1 0) = [([VInt 1], 2)]"
    and p1: "paramfunc (containers st1 0) = Some \<lparr>f_id = 7, f_params = [''a'']\<rparr>"
    and n1: "next_sid st1 = 3"
    and s1: "spacenamer (containers st1 0) = 1"
    and h1: "\<forall>x. has_space (containers st1 0) x = (x = ''Space1'')"
    by (elim exE conjE)
  have b2: "bind_args example_env (paramfunc (containers st1 0)) [VInt x] [] =
      Inr ([VInt x], [(''a'', VInt x)])" for x
    by (simp add: p1 example_env_def)
  have m2: "map_of (param_spaces (containers st1 0)) [VInt 2] = None" by (simp add: c1)
  have e2: "eval_formula example_env 0 [(''a'', VInt 2)] (st1\<lparr>system_self := Some 0\<rparr>) =
      (Inr None, st1\<lparr>system_self := Some 0\<rparr>)"
    by (simp add: eval_formula_def p1 example_env_def)
  have rn: "requested_name example_env (containers (st1\<lparr>system_self := Some 0\<rparr>) 0) None = ''Space2''"
    by (simp add: requested_name_def s1 example_env_def nat_str.simps)
  have nh2: "\<not> has_space (containers (st1\<lparr>system_self := Some 0\<rparr>) 0)
      (requested_name example_env (containers (st1\<lparr>system_self := Some 0\<rparr>) 0) None)"
    unfolding rn using h1 by simp
  have v2: "is_valid_name example_env
      (requested_name example_env (containers (st1\<lparr>system_self := Some 0\<rparr>) 0) None)"
    unfolding rn by (simp add: example_env_def is_identifier_def)
  have lt: "0 < next_sid (st1\<lparr>system_self := Some 0\<rparr>)" by (simp add: n1)
  from get_space_none_result [OF b2 [of 2] m2 e2 nh2 v2 lt]
  obtain st2 where third: "get_space example_env 0 [VInt 2] [] st1 = (Inr 3, st2)"
    by (auto simp: n1)
  note t = get_space_memoizes [OF first f(1) [of 1]]
  from t [OF b2 [of 1]]
  have second: "get_space (example_env\<lparr>call_formula := call_formula raising_env\<rparr>) 0 [VInt 1] [] st1 =
      (Inr 2, st1)" by simp
  from t [OF b2 [of 2]] ok example_env_callbacks [of 0]
  have "\<forall>child2 st2. get_space example_env 0 [VInt 2] [] st1 = (Inr child2, st2) \<longrightarrow> child2 \<noteq> 2"
    by simp
  with third have d: "(3::nat) \<noteq> 2" by blast
  from first second third d have "\<exists>st1 st2.
      get_space example_env 0 [VInt 1] [] param_state = (Inr 2, st1) \<and>
      get_space (example_env\<lparr>call_formula := call_formula raising_env\<rparr>) 0 [VInt 1] [] st1 =
        (Inr 2, st1) \<and>
      get_space example_env 0 [VInt 2] [] st1 = (Inr 3, st2) \<and> (3::nat) \<noteq> 2"
    by (intro exI conjI)
  with ok example_env_callbacks show ?thesis by (intro conjI)
qed

end
